theory Spec2Isabelle
  imports Main
begin

section \<open>Values and documents\<close>

text \<open>
  The values a document field can hold (\<open>DocValue\<close> of \<open>types.ts\<close>): the JSON tree,
  plus JavaScript's \<open>undefined\<close>, which validation has to reject, and \<open>BigInt\<close>, a
  value \<open>JSON.stringify\<close> throws on. Numbers are kept as integers: no operation of
  \<open>model.ts\<close> computes with them.
\<close>

datatype jsval =
    JUndefined
  | JNull
  | JBool bool
  | JNum int
  | JStr string
  | JBigInt int
  | JArr "jsval list"
  | JObj "(string \<times> jsval) list"

text \<open>
  A document is a JavaScript object typed \<open>T & { _id: string, $deleted?: boolean }\<close>.
  The two fields \<open>model.ts\<close> reads and writes are kept apart from the caller's fields:
  \<open>d_id\<close> is \<open>_id\<close> (absent on a draft that has not been inserted yet),
  \<open>d_deleted\<close> is the tombstone \<open>$deleted\<close>, \<open>d_fields\<close> the remaining keys in order.
  Queries are JSON values; an update is a document-shaped object (a replacement document or an
  object of modifiers); a projection is an optional list of field names.
\<close>

record doc =
  d_id :: "string option"
  d_deleted :: "bool option"
  d_fields :: "(string \<times> jsval) list"

type_synonym query = jsval
type_synonym update = doc
type_synonym projection = "string list option"

text \<open>\<open>doc.$deleted\<close> in a condition: truthy only when the flag is present and true.\<close>

definition is_deleted :: "doc \<Rightarrow> bool" where
  "is_deleted d = (d_deleted d = Some True)"

text \<open>\<open>!newDoc._id\<close>: the identifier is absent or the empty string.\<close>

definition no_id :: "doc \<Rightarrow> bool" where
  "no_id d = (case d_id d of None \<Rightarrow> True | Some i \<Rightarrow> i = [])"

text \<open>
  \<open>doc._id\<close> used as a property key and as a \<open>Set\<close> element. A restored or inserted
  document is typed \<open>Doc<T>\<close>, whose \<open>_id\<close> is a string; for an absent \<open>_id\<close> the
  property key JavaScript would use is the text \<open>undefined\<close>.
\<close>

definition id_key :: "doc \<Rightarrow> string" where
  "id_key d = (case d_id d of Some i \<Rightarrow> i | None \<Rightarrow> ''undefined'')"

section \<open>The store\<close>

text \<open>
  The class \<open>LeafDB\<close>: \<open>strict\<close>, \<open>file\<close>, \<open>map\<close> and \<open>list\<close>. \<open>map\<close> is a
  \<open>Record<string, Doc<T>>\<close>, here a partial map on its own keys; \<open>list\<close> is a
  \<open>Set<string>\<close>, which iterates in insertion order: a list that \<open>set_add\<close> never
  lets hold a value twice.
\<close>

record leafdb =
  db_strict :: bool
  db_file :: "string option"
  db_map :: "string \<rightharpoonup> doc"
  db_list :: "string list"

text \<open>The file system, as far as the store sees it: the text held under each path.\<close>

type_synonym filesystem = "string \<rightharpoonup> string"

datatype error =
    MemoryMode
  | InvalidDoc doc
  | DuplicateId string
  | InvalidId string
  | InvalidQuery query
  | InvalidUpdate update
  | CorruptLine string
  | PersistFailure string
  | TypeError
  | HelperThrown

text \<open>
  The functions \<open>model.ts\<close> imports from \<open>./validation\<close> and \<open>./modifiers\<close>, and the
  platform's \<open>JSON.parse\<close>, \<open>JSON.stringify\<close> and \<open>path.resolve\<close>, are parameters of
  the model. A helper that can throw returns an option, \<open>None\<close> for the exception.
  The second argument of \<open>isValidDoc\<close> is its flag. \<open>json_parse\<close> is \<open>JSON.parse\<close>
  followed by the typing of the result as a document: it is \<open>None\<close> where \<open>JSON.parse\<close>
  throws, and where the parsed value is no object, which the validation of a restored
  document sends to the same \<open>catch\<close> branch.
\<close>

record env =
  isValidDoc :: "doc \<Rightarrow> bool \<Rightarrow> bool"
  isId :: "string \<Rightarrow> bool"
  isObject :: "query \<Rightarrow> bool"
  isQueryMatch :: "doc \<Rightarrow> query \<Rightarrow> bool option"
  isValidUpdate :: "update \<Rightarrow> bool"
  hasOperators :: "update \<Rightarrow> bool"
  modify :: "doc \<Rightarrow> update \<Rightarrow> doc option"
  project :: "doc \<Rightarrow> projection \<Rightarrow> doc"
  json_parse :: "string \<Rightarrow> doc option"
  json_stringify :: "doc \<Rightarrow> string option"
  path_resolve :: "string \<Rightarrow> string \<Rightarrow> string"

text \<open>\<open>Set.add\<close> and \<open>Set.delete\<close> on the insertion-ordered identifier set.\<close>

definition set_add :: "string \<Rightarrow> string list \<Rightarrow> string list" where
  "set_add i xs = (if i \<in> set xs then xs else xs @ [i])"

definition set_delete :: "string \<Rightarrow> string list \<Rightarrow> string list" where
  "set_delete i xs = removeAll i xs"

text \<open>\<open>flush\<close>: both halves of the index are emptied.\<close>

definition flush :: "leafdb \<Rightarrow> leafdb" where
  "flush s = s\<lparr>db_map := Map.empty, db_list := []\<rparr>"

text \<open>\<open>this.list.add(doc._id); this.map[doc._id] = doc\<close>, shared by load and insert.\<close>

definition index_put :: "doc \<Rightarrow> leafdb \<Rightarrow> leafdb" where
  "index_put d s =
     s\<lparr>db_list := set_add (id_key d) (db_list s), db_map := (db_map s)(id_key d \<mapsto> d)\<rparr>"

section \<open>Lines of the backing file\<close>

text \<open>\<open>text.split('\n')\<close> and \<open>lines.join('\n')\<close>.\<close>

definition newline :: char where
  "newline = CHR 0x0A"

fun split_nl :: "string \<Rightarrow> string list" where
  "split_nl [] = [[]]"
| "split_nl (c # cs) =
     (if c = newline then [] # split_nl cs
      else (case split_nl cs of [] \<Rightarrow> [[c]] | l # ls \<Rightarrow> (c # l) # ls))"

fun join_nl :: "string list \<Rightarrow> string" where
  "join_nl [] = []"
| "join_nl [l] = l"
| "join_nl (l # k # ls) = l @ newline # join_nl (k # ls)"

section \<open>Loading and persisting\<close>

text \<open>
  The \<open>try\<close> block of \<open>load\<close> for one line: parse, validate with the flag \<open>true\<close>.
  \<open>None\<close> is the \<open>catch\<close> branch.
\<close>

definition load_try :: "env \<Rightarrow> string \<Rightarrow> doc option" where
  "load_try e raw =
     (case json_parse e raw of
        None \<Rightarrow> None
      | Some d \<Rightarrow> if isValidDoc e d True then Some d else None)"

text \<open>
  The loop of \<open>load\<close> over the lines of the file. An empty line is skipped; the
  \<open>catch\<close> branch rethrows under the strict policy and collects the raw line otherwise.
  \<open>load\<close> itself throws without a backing file, flushes and reads a file that exists, and
  creates a missing file empty, leaving the index as it is.
\<close>

fun load_lines :: "env \<Rightarrow> leafdb \<Rightarrow> string list \<Rightarrow> string list \<Rightarrow> leafdb \<times> (error + string list)" where
  "load_lines e s [] corrupted = (s, Inr corrupted)"
| "load_lines e s (raw # raws) corrupted =
     (if raw = [] then load_lines e s raws corrupted
      else (case load_try e raw of
              Some d \<Rightarrow> load_lines e (index_put d s) raws corrupted
            | None \<Rightarrow>
                if db_strict s then (s, Inl (CorruptLine raw))
                else load_lines e s raws (corrupted @ [raw])))"

definition load :: "env \<Rightarrow> leafdb \<Rightarrow> filesystem \<Rightarrow> leafdb \<times> filesystem \<times> (error + string list)" where
  "load e s fs =
     (case db_file s of
        None \<Rightarrow> (s, fs, Inl MemoryMode)
      | Some f \<Rightarrow>
          (case fs f of
             Some content \<Rightarrow>
               (case load_lines e (flush s) (split_nl content) [] of
                  (s', r) \<Rightarrow> (s', fs, r))
           | None \<Rightarrow> (s, fs(f \<mapsto> []), Inr [])))"

text \<open>
  The \<open>try\<close> block of \<open>persist\<close> for one identifier: the lines it pushes, or \<open>None\<close>
  when it throws (\<open>doc.$deleted\<close> on a missing entry, or \<open>JSON.stringify\<close>).
\<close>

definition persist_try :: "env \<Rightarrow> leafdb \<Rightarrow> string \<Rightarrow> string list option" where
  "persist_try e s i =
     (case db_map s i of
        None \<Rightarrow> None
      | Some d \<Rightarrow>
          if is_deleted d then Some []
          else (case json_stringify e d of None \<Rightarrow> None | Some l \<Rightarrow> Some [l]))"

text \<open>
  \<open>this.list.delete(_id); delete this.map[_id]\<close>, and the \<open>forEach\<close> of \<open>persist\<close>
  over the identifier set: deleting the identifier being visited leaves the visit of the
  others as it was, so the loop runs over the sequence as it stood at the start. A strict
  store throws out of the loop, before anything is written.
\<close>

definition index_remove :: "string \<Rightarrow> leafdb \<Rightarrow> leafdb" where
  "index_remove i s = s\<lparr>db_list := set_delete i (db_list s), db_map := (db_map s)(i := None)\<rparr>"

fun persist_loop :: "env \<Rightarrow> leafdb \<Rightarrow> string list \<Rightarrow> string list \<Rightarrow> leafdb \<times> (error + string list)" where
  "persist_loop e s [] payload = (s, Inr payload)"
| "persist_loop e s (i # ids) payload =
     (case persist_try e s i of
        Some out \<Rightarrow> persist_loop e s ids (payload @ out)
      | None \<Rightarrow>
          if db_strict s then (index_remove i s, Inl (PersistFailure i))
          else persist_loop e (index_remove i s) ids payload)"

definition persist :: "env \<Rightarrow> leafdb \<Rightarrow> filesystem \<Rightarrow> leafdb \<times> filesystem \<times> (error + unit)" where
  "persist e s fs =
     (case db_file s of
        None \<Rightarrow> (s, fs, Inl MemoryMode)
      | Some f \<Rightarrow>
          (case persist_loop e s (db_list s) [] of
             (s', Inl err) \<Rightarrow> (s', fs, Inl err)
           | (s', Inr payload) \<Rightarrow> (s', fs(f \<mapsto> join_nl payload), Inr ())))"

text \<open>\<open>drop\<close>: flush, then persist when a backing file is configured.\<close>

definition drop_db :: "env \<Rightarrow> leafdb \<Rightarrow> filesystem \<Rightarrow> leafdb \<times> filesystem \<times> (error + unit)" where
  "drop_db e s fs =
     (let s' = flush s in
      if db_file s' \<noteq> None then persist e s' fs else (s', fs, Inr ()))"

section \<open>Insert\<close>

text \<open>
  \<open>insert\<close>, \<open>findMany\<close>, \<open>updateById\<close> and \<open>deleteById\<close> are modelled on
  arrays: \<open>toArray\<close> (of \<open>./utils\<close>) wraps a single value into a one-element array, and
  the payload test at the head of \<open>insert\<close> can only fail on a single payload that is no
  object, which the type \<open>OneOrMore<T>\<close> excludes. \<open>generateUid()\<close> is random: the
  identifiers its successive calls return during one \<open>insert\<close> are the argument \<open>uids\<close>,
  and \<open>n\<close> counts the calls made so far. \<open>isValidDoc(newDoc)\<close> leaves its flag out,
  which reads as false.
\<close>

fun insert_loop ::
  "env \<Rightarrow> leafdb \<Rightarrow> (nat \<Rightarrow> string) \<Rightarrow> nat \<Rightarrow> doc list \<Rightarrow> doc list \<Rightarrow> leafdb \<times> (error + doc list)" where
  "insert_loop e s uids n [] inserted = (s, Inr inserted)"
| "insert_loop e s uids n (newDoc # newDocs) inserted =
     (if \<not> isValidDoc e newDoc False then (s, Inl (InvalidDoc newDoc))
      else if no_id newDoc then
        (let d = newDoc\<lparr>d_id := Some (uids n)\<rparr>
         in insert_loop e (index_put d s) uids (Suc n) newDocs (inserted @ [d]))
      else if id_key newDoc \<in> set (db_list s) then (s, Inl (DuplicateId (id_key newDoc)))
      else insert_loop e (index_put newDoc s) uids n newDocs (inserted @ [newDoc]))"

definition insert_db :: "env \<Rightarrow> leafdb \<Rightarrow> (nat \<Rightarrow> string) \<Rightarrow> doc list \<Rightarrow> leafdb \<times> (error + doc list)" where
  "insert_db e s uids payload = insert_loop e s uids 0 payload []"

section \<open>Find\<close>

definition findOne :: "env \<Rightarrow> leafdb \<Rightarrow> string \<Rightarrow> projection \<Rightarrow> error + doc option" where
  "findOne e s i projection =
     (if \<not> isId e i then Inl (InvalidId i)
      else (case db_map s i of
              Some d \<Rightarrow> if \<not> is_deleted d then Inr (Some (project e d projection)) else Inr None
            | None \<Rightarrow> Inr None))"

fun findMany_loop :: "env \<Rightarrow> leafdb \<Rightarrow> string list \<Rightarrow> projection \<Rightarrow> doc list \<Rightarrow> error + doc list" where
  "findMany_loop e s [] projection payload = Inr payload"
| "findMany_loop e s (i # ids) projection payload =
     (if \<not> isId e i then Inl (InvalidId i)
      else (case db_map s i of
              Some d \<Rightarrow>
                if \<not> is_deleted d
                then findMany_loop e s ids projection (payload @ [project e d projection])
                else findMany_loop e s ids projection payload
            | None \<Rightarrow> findMany_loop e s ids projection payload))"

definition findMany :: "env \<Rightarrow> leafdb \<Rightarrow> string list \<Rightarrow> projection \<Rightarrow> error + doc list" where
  "findMany e s ids projection = findMany_loop e s ids projection []"

text \<open>
  The test \<open>!doc.$deleted && isQueryMatch(doc, query)\<close> of \<open>find\<close>, \<open>update\<close> and
  \<open>delete\<close>: \<open>Inl\<close> when it throws (no entry under the identifier, or the matcher throws);
  the matcher is not called on a tombstoned document.
\<close>

definition live_match :: "env \<Rightarrow> leafdb \<Rightarrow> string \<Rightarrow> query \<Rightarrow> error + (doc \<times> bool)" where
  "live_match e s i q =
     (case db_map s i of
        None \<Rightarrow> Inl TypeError
      | Some d \<Rightarrow>
          if is_deleted d then Inr (d, False)
          else (case isQueryMatch e d q of None \<Rightarrow> Inl HelperThrown | Some b \<Rightarrow> Inr (d, b)))"

fun find_loop :: "env \<Rightarrow> leafdb \<Rightarrow> string list \<Rightarrow> query \<Rightarrow> projection \<Rightarrow> doc list \<Rightarrow> error + doc list" where
  "find_loop e s [] q projection payload = Inr payload"
| "find_loop e s (i # ids) q projection payload =
     (case live_match e s i q of
        Inl err \<Rightarrow> Inl err
      | Inr (d, b) \<Rightarrow>
          if b then find_loop e s ids q projection (payload @ [project e d projection])
          else find_loop e s ids q projection payload)"

definition find_db :: "env \<Rightarrow> leafdb \<Rightarrow> query \<Rightarrow> projection \<Rightarrow> error + doc list" where
  "find_db e s q projection =
     (if \<not> isObject e q then Inl (InvalidQuery q)
      else find_loop e s (db_list s) q projection [])"

section \<open>Update\<close>

text \<open>
  \<open>hasOperators(update) ? modify(doc, update) : update\<close>, then \<open>{ ...newDoc, _id }\<close>:
  the new stored document, \<open>None\<close> when \<open>modify\<close> throws.
\<close>

definition new_doc :: "env \<Rightarrow> doc \<Rightarrow> update \<Rightarrow> string \<Rightarrow> doc option" where
  "new_doc e d u i =
     (case (if hasOperators e u then modify e d u else Some u) of
        None \<Rightarrow> None
      | Some newDoc \<Rightarrow> Some (newDoc\<lparr>d_id := Some i\<rparr>))"

fun updateById_loop ::
  "env \<Rightarrow> leafdb \<Rightarrow> string list \<Rightarrow> update \<Rightarrow> projection \<Rightarrow> doc list \<Rightarrow> leafdb \<times> (error + doc list)" where
  "updateById_loop e s [] u projection payload = (s, Inr payload)"
| "updateById_loop e s (i # ids) u projection payload =
     (if \<not> isId e i then (s, Inl (InvalidId i))
      else (case db_map s i of
              Some d \<Rightarrow>
                if \<not> is_deleted d then
                  (case new_doc e d u i of
                     None \<Rightarrow> (s, Inl HelperThrown)
                   | Some d' \<Rightarrow>
                       updateById_loop e (s\<lparr>db_map := (db_map s)(i \<mapsto> d')\<rparr>) ids u projection
                         (payload @ [project e d' projection]))
                else updateById_loop e s ids u projection payload
            | None \<Rightarrow> updateById_loop e s ids u projection payload))"

definition updateById ::
  "env \<Rightarrow> leafdb \<Rightarrow> string list \<Rightarrow> update \<Rightarrow> projection \<Rightarrow> leafdb \<times> (error + doc list)" where
  "updateById e s ids u projection =
     (if \<not> isValidUpdate e u then (s, Inl (InvalidUpdate u))
      else updateById_loop e s ids u projection [])"

fun update_loop ::
  "env \<Rightarrow> leafdb \<Rightarrow> string list \<Rightarrow> query \<Rightarrow> update \<Rightarrow> projection \<Rightarrow> doc list \<Rightarrow> leafdb \<times> (error + doc list)" where
  "update_loop e s [] q u projection payload = (s, Inr payload)"
| "update_loop e s (i # ids) q u projection payload =
     (case live_match e s i q of
        Inl err \<Rightarrow> (s, Inl err)
      | Inr (d, b) \<Rightarrow>
          if b then
            (case new_doc e d u i of
               None \<Rightarrow> (s, Inl HelperThrown)
             | Some d' \<Rightarrow>
                 update_loop e (s\<lparr>db_map := (db_map s)(i \<mapsto> d')\<rparr>) ids q u projection
                   (payload @ [project e d' projection]))
          else update_loop e s ids q u projection payload)"

definition update ::
  "env \<Rightarrow> leafdb \<Rightarrow> query \<Rightarrow> update \<Rightarrow> projection \<Rightarrow> leafdb \<times> (error + doc list)" where
  "update e s q u projection =
     (if \<not> isObject e q then (s, Inl (InvalidQuery q))
      else if \<not> isValidUpdate e u then (s, Inl (InvalidUpdate u))
      else update_loop e s (db_list s) q u projection [])"

section \<open>Delete\<close>

text \<open>\<open>{ ...doc, $deleted: true }\<close>\<close>

definition tombstone :: "doc \<Rightarrow> doc" where
  "tombstone d = d\<lparr>d_deleted := Some True\<rparr>"

fun deleteById_loop :: "env \<Rightarrow> leafdb \<Rightarrow> string list \<Rightarrow> nat \<Rightarrow> leafdb \<times> (error + nat)" where
  "deleteById_loop e s [] payload = (s, Inr payload)"
| "deleteById_loop e s (i # ids) payload =
     (if \<not> isId e i then (s, Inl (InvalidId i))
      else (case db_map s i of
              Some d \<Rightarrow>
                if \<not> is_deleted d
                then deleteById_loop e (s\<lparr>db_map := (db_map s)(i \<mapsto> tombstone d)\<rparr>) ids (payload + 1)
                else deleteById_loop e s ids payload
            | None \<Rightarrow> deleteById_loop e s ids payload))"

definition deleteById :: "env \<Rightarrow> leafdb \<Rightarrow> string list \<Rightarrow> leafdb \<times> (error + nat)" where
  "deleteById e s ids = deleteById_loop e s ids 0"

fun delete_loop :: "env \<Rightarrow> leafdb \<Rightarrow> string list \<Rightarrow> query \<Rightarrow> nat \<Rightarrow> leafdb \<times> (error + nat)" where
  "delete_loop e s [] q payload = (s, Inr payload)"
| "delete_loop e s (i # ids) q payload =
     (case live_match e s i q of
        Inl err \<Rightarrow> (s, Inl err)
      | Inr (d, b) \<Rightarrow>
          if b then delete_loop e (s\<lparr>db_map := (db_map s)(i \<mapsto> tombstone d)\<rparr>) ids q (payload + 1)
          else delete_loop e s ids q payload)"

definition delete :: "env \<Rightarrow> leafdb \<Rightarrow> query \<Rightarrow> leafdb \<times> (error + nat)" where
  "delete e s q =
     (if \<not> isObject e q then (s, Inl (InvalidQuery q))
      else delete_loop e s (db_list s) q 0)"

section \<open>Construction\<close>

text \<open>
  The constructor's options, and the constructor: an empty index; with a root the backing
  file is \<open>path.resolve(root, name + '.txt')\<close> with \<open>leafdb\<close> for a missing name, and the
  file is loaded unless autoload is disabled. \<open>Inl\<close> is an exception thrown by \<open>load\<close>.
\<close>

record options =
  opt_name :: "string option"
  opt_root :: "string option"
  opt_disableAutoload :: bool
  opt_strict :: bool

definition db_name :: "options \<Rightarrow> string" where
  "db_name opts = (case opt_name opts of None \<Rightarrow> ''leafdb'' | Some n \<Rightarrow> if n = [] then ''leafdb'' else n)"

definition constructor :: "env \<Rightarrow> options \<Rightarrow> filesystem \<Rightarrow> leafdb \<times> filesystem \<times> (error + unit)" where
  "constructor e opts fs =
     (let s = \<lparr>db_strict = opt_strict opts, db_file = None, db_map = Map.empty, db_list = []\<rparr>
      in (case opt_root opts of
            None \<Rightarrow> (s, fs, Inr ())
          | Some r \<Rightarrow>
              if r = [] then (s, fs, Inr ())
              else
                (let s1 = s\<lparr>db_file := Some (path_resolve e r (db_name opts @ ''.txt''))\<rparr>
                 in if \<not> opt_disableAutoload opts
                    then (case load e s1 fs of
                            (s2, fs2, Inl err) \<Rightarrow> (s2, fs2, Inl err)
                          | (s2, fs2, Inr c) \<Rightarrow> (s2, fs2, Inr ()))
                    else (s1, fs, Inr ()))))"

section \<open>The imported helpers, for the examples\<close>

text \<open>
  The theorems below hold for every \<open>env\<close>. Their concrete instances run on \<open>spec_env\<close>,
  whose components follow the specification's description of the helpers.
\<close>

text \<open>
  Modelled from the spec: the rules of \<open>isValidDoc\<close> (\<open>./validation\<close>, which is not among
  the sources) on field names and values. A field name does not start with \<open>$\<close> and holds
  no dot; a value is not \<open>undefined\<close>, and the same holds inside arrays and objects.
\<close>

definition starts_with_dollar :: "string \<Rightarrow> bool" where
  "starts_with_dollar k = (case k of [] \<Rightarrow> False | c # _ \<Rightarrow> c = CHR ''$'')"

definition legal_key :: "string \<Rightarrow> bool" where
  "legal_key k = (\<not> starts_with_dollar k \<and> CHR ''.'' \<notin> set k)"

fun legal_value :: "jsval \<Rightarrow> bool" where
  "legal_value JUndefined = False"
| "legal_value (JArr vs) = list_all legal_value vs"
| "legal_value (JObj kvs) = list_all (\<lambda>kv. legal_key (fst kv) \<and> legal_value (snd kv)) kvs"
| "legal_value v = True"

text \<open>
  Modelled from the spec: \<open>isId\<close> of \<open>./validation\<close>, which is not among the sources;
  identifiers are non-empty strings.
\<close>

definition spec_isId :: "string \<Rightarrow> bool" where
  "spec_isId i = (i \<noteq> [])"

text \<open>
  Modelled from the spec: \<open>isValidDoc\<close> of \<open>./validation\<close>, which is not among the
  sources. No field name begins with \<open>$\<close> or contains a dot, at every nesting level; no value
  is \<open>undefined\<close>; the identifier is well-formed when present, and has to be present when
  the flag is set (a restored document).
\<close>

definition spec_isValidDoc :: "doc \<Rightarrow> bool \<Rightarrow> bool" where
  "spec_isValidDoc d strict =
     (d_deleted d = None \<and>
      list_all (\<lambda>kv. legal_key (fst kv) \<and> legal_value (snd kv)) (d_fields d) \<and>
      (case d_id d of None \<Rightarrow> \<not> strict | Some i \<Rightarrow> spec_isId i))"

text \<open>
  Modelled from the spec: \<open>isObject\<close> of \<open>./validation\<close>, which is not among the sources.
\<close>

definition spec_isObject :: "query \<Rightarrow> bool" where
  "spec_isObject q = (case q of JObj kvs \<Rightarrow> True | _ \<Rightarrow> False)"

text \<open>
  Modelled from the spec: the field lookup of \<open>isQueryMatch\<close> (\<open>./validation\<close>, which is
  not among the sources), for a top-level key: the value the document holds under it, \<open>_id\<close>
  and \<open>$deleted\<close> included.
\<close>

definition doc_field :: "doc \<Rightarrow> string \<Rightarrow> jsval option" where
  "doc_field d k =
     (if k = ''_id'' then map_option JStr (d_id d)
      else if k = ''$deleted'' then map_option JBool (d_deleted d)
      else map_of (d_fields d) k)"

text \<open>
  Modelled from the spec: the value comparison of \<open>isQueryMatch\<close> (\<open>./validation\<close>, not among
  the sources). An object used as a clause matches a target object that holds every key of the
  clause with a matching value; every other clause is compared for equality, arrays in order.
\<close>

fun clause_match :: "jsval \<Rightarrow> jsval \<Rightarrow> bool" where
  "clause_match t (JObj kvs) =
     (case t of
        JObj tkvs \<Rightarrow>
          list_all (\<lambda>kv. case map_of tkvs (fst kv) of
                            None \<Rightarrow> False
                          | Some tv \<Rightarrow> clause_match tv (snd kv)) kvs
      | _ \<Rightarrow> False)"
| "clause_match t c = (t = c)"

text \<open>
  Modelled from the spec: \<open>isQueryMatch\<close> of \<open>./validation\<close>, which is not among the
  sources, for queries made of equality clauses on top-level fields: every clause has to
  match. Operator clauses and nested paths are left out of this model: a query that has one,
  or that is no object, is answered \<open>None\<close>.
\<close>

definition spec_isQueryMatch :: "doc \<Rightarrow> query \<Rightarrow> bool option" where
  "spec_isQueryMatch d q =
     (case q of
        JObj clauses \<Rightarrow>
          if list_all (\<lambda>kv. legal_key (fst kv)) clauses
          then Some (list_all (\<lambda>kv. case doc_field d (fst kv) of
                                       None \<Rightarrow> False
                                     | Some t \<Rightarrow> clause_match t (snd kv)) clauses)
          else None
      | _ \<Rightarrow> None)"

text \<open>
  Modelled from the spec: \<open>hasOperators\<close> of \<open>./validation\<close>, which is not among the
  sources; an update is in modifier mode when a top-level key starts with \<open>$\<close>.
\<close>

definition spec_hasOperators :: "update \<Rightarrow> bool" where
  "spec_hasOperators u =
     (d_deleted u \<noteq> None \<or> list_ex (\<lambda>kv. starts_with_dollar (fst kv)) (d_fields u))"

text \<open>
  Modelled from the spec: \<open>isValidUpdate\<close> of \<open>./validation\<close>, which is not among the
  sources. An update does not name the identifier; it is either made of the modifiers
  \<open>$add\<close>, \<open>$push\<close> and \<open>$set\<close>, each with an object of legal fields, or a replacement
  whose fields are legal.
\<close>

definition modifier_ok :: "string \<times> jsval \<Rightarrow> bool" where
  "modifier_ok kv =
     (fst kv \<in> {''$add'', ''$push'', ''$set''} \<and>
      (case snd kv of
         JObj fs \<Rightarrow> list_all (\<lambda>f. legal_key (fst f) \<and> legal_value (snd f)) fs
       | _ \<Rightarrow> False))"

definition spec_isValidUpdate :: "update \<Rightarrow> bool" where
  "spec_isValidUpdate u =
     (d_id u = None \<and> d_deleted u = None \<and>
      (list_all modifier_ok (d_fields u) \<or>
       list_all (\<lambda>kv. legal_key (fst kv) \<and> legal_value (snd kv)) (d_fields u)))"

text \<open>
  Modelled from the spec: the assignment \<open>modify\<close> (\<open>./modifiers\<close>, which is not among
  the sources) makes to a top-level field: in place when the key exists, at the end otherwise.
\<close>

fun set_field :: "string \<Rightarrow> jsval \<Rightarrow> (string \<times> jsval) list \<Rightarrow> (string \<times> jsval) list" where
  "set_field k v [] = [(k, v)]"
| "set_field k v ((k', v') # r) = (if k = k' then (k, v) # r else (k', v') # set_field k v r)"

text \<open>
  Modelled from the spec: \<open>modify\<close> of \<open>./modifiers\<close>, which is not among the sources.
  \<open>$add\<close> adds a number to a field created at 0, \<open>$push\<close> appends to a field created as
  the empty array, \<open>$set\<close> assigns; \<open>None\<close> where the existing value has the wrong type.
\<close>

definition apply_modifier ::
  "string \<Rightarrow> string \<times> jsval \<Rightarrow> (string \<times> jsval) list \<Rightarrow> (string \<times> jsval) list option" where
  "apply_modifier m kv fs =
     (if m = ''$set'' then Some (set_field (fst kv) (snd kv) fs)
      else if m = ''$add'' then
        (case snd kv of
           JNum n \<Rightarrow>
             (case map_of fs (fst kv) of
                None \<Rightarrow> Some (set_field (fst kv) (JNum n) fs)
              | Some (JNum x) \<Rightarrow> Some (set_field (fst kv) (JNum (x + n)) fs)
              | Some _ \<Rightarrow> None)
         | _ \<Rightarrow> None)
      else if m = ''$push'' then
        (case map_of fs (fst kv) of
           None \<Rightarrow> Some (set_field (fst kv) (JArr [snd kv]) fs)
         | Some (JArr xs) \<Rightarrow> Some (set_field (fst kv) (JArr (xs @ [snd kv])) fs)
         | Some _ \<Rightarrow> None)
      else None)"

fun apply_modifiers ::
  "string \<Rightarrow> (string \<times> jsval) list \<Rightarrow> (string \<times> jsval) list \<Rightarrow> (string \<times> jsval) list option" where
  "apply_modifiers m [] fs = Some fs"
| "apply_modifiers m (kv # kvs) fs =
     (case apply_modifier m kv fs of None \<Rightarrow> None | Some fs' \<Rightarrow> apply_modifiers m kvs fs')"

fun modify_fields ::
  "(string \<times> jsval) list \<Rightarrow> (string \<times> jsval) list \<Rightarrow> (string \<times> jsval) list option" where
  "modify_fields [] fs = Some fs"
| "modify_fields ((m, payload) # ms) fs =
     (case payload of
        JObj kvs \<Rightarrow>
          (case apply_modifiers m kvs fs of None \<Rightarrow> None | Some fs' \<Rightarrow> modify_fields ms fs')
      | _ \<Rightarrow> None)"

definition spec_modify :: "doc \<Rightarrow> update \<Rightarrow> doc option" where
  "spec_modify d u =
     (case modify_fields (d_fields u) (d_fields d) of
        None \<Rightarrow> None
      | Some fs \<Rightarrow> Some (d\<lparr>d_fields := fs\<rparr>))"

text \<open>
  Modelled from the spec: \<open>project\<close> of \<open>./modifiers\<close>, which is not among the sources.
  No projection gives the whole document; a list of names gives the fields it names, unknown
  names being left out.
\<close>

definition spec_project :: "doc \<Rightarrow> projection \<Rightarrow> doc" where
  "spec_project d p =
     (case p of
        None \<Rightarrow> d
      | Some names \<Rightarrow>
          \<lparr>d_id = (if ''_id'' \<in> set names then d_id d else None),
           d_deleted = (if ''$deleted'' \<in> set names then d_deleted d else None),
           d_fields = filter (\<lambda>kv. fst kv \<in> set names) (d_fields d)\<rparr>)"

subsection \<open>JSON text\<close>

text \<open>
  \<open>JSON.stringify\<close> and \<open>JSON.parse\<close> belong to the platform, not to the repository.
  \<open>JSON.stringify\<close> on the value tree: compact output, members in key order, a member
  whose value is \<open>undefined\<close> left out, \<open>undefined\<close> inside an array written \<open>null\<close>,
  and an exception (\<open>None\<close>) on a \<open>BigInt\<close>. The identifier is written first and the
  tombstone flag last.
\<close>

definition dquote :: char where
  "dquote = CHR 0x22"

definition backslash :: char where
  "backslash = CHR 0x5C"

definition escape_char :: "char \<Rightarrow> string" where
  "escape_char c =
     (if c = dquote then [backslash, dquote]
      else if c = backslash then [backslash, backslash]
      else if c = newline then [backslash, CHR ''n'']
      else [c])"

definition quote :: "string \<Rightarrow> string" where
  "quote s = dquote # concat (map escape_char s) @ [dquote]"

definition digit :: "nat \<Rightarrow> char" where
  "digit n = char_of (48 + n)"

function show_nat :: "nat \<Rightarrow> string" where
  "show_nat n = (if n < 10 then [digit n] else show_nat (n div 10) @ [digit (n mod 10)])"
  by pat_completeness auto
termination
  by (relation "measure id") auto

definition show_int :: "int \<Rightarrow> string" where
  "show_int i = (if i < 0 then CHR ''-'' # show_nat (nat (- i)) else show_nat (nat i))"

fun join_comma :: "string list \<Rightarrow> string" where
  "join_comma [] = []"
| "join_comma [l] = l"
| "join_comma (l # k # ls) = l @ CHR '','' # join_comma (k # ls)"

fun stringify_value :: "jsval \<Rightarrow> string option" where
  "stringify_value JUndefined = Some ''null''"
| "stringify_value JNull = Some ''null''"
| "stringify_value (JBool b) = Some (if b then ''true'' else ''false'')"
| "stringify_value (JNum n) = Some (show_int n)"
| "stringify_value (JStr s) = Some (quote s)"
| "stringify_value (JBigInt n) = None"
| "stringify_value (JArr vs) =
     (case those (map stringify_value vs) of
        None \<Rightarrow> None
      | Some ss \<Rightarrow> Some (''['' @ join_comma ss @ '']''))"
| "stringify_value (JObj kvs) =
     (case those (map (\<lambda>kv. if snd kv = JUndefined then Some []
                              else map_option (\<lambda>t. quote (fst kv) @ CHR '':'' # t)
                                     (stringify_value (snd kv))) kvs) of
        None \<Rightarrow> None
      | Some ms \<Rightarrow> Some (''{'' @ join_comma (filter (\<lambda>m. m \<noteq> []) ms) @ ''}''))"

definition doc_object :: "doc \<Rightarrow> jsval" where
  "doc_object d =
     JObj ((case d_id d of None \<Rightarrow> [] | Some i \<Rightarrow> [(''_id'', JStr i)]) @ d_fields d @
           (case d_deleted d of None \<Rightarrow> [] | Some b \<Rightarrow> [(''$deleted'', JBool b)]))"

definition stringify_doc :: "doc \<Rightarrow> string option" where
  "stringify_doc d = stringify_value (doc_object d)"

text \<open>
  \<open>JSON.parse\<close> for the examples, as the inverse of \<open>stringify_doc\<close> on a given list of
  documents: a line is read back as the first document of \<open>known\<close> that is written as this
  line, and any other line is a syntax error.
\<close>

definition parse_known :: "doc list \<Rightarrow> string \<Rightarrow> doc option" where
  "parse_known known raw = List.find (\<lambda>d. stringify_doc d = Some raw) known"

definition spec_env :: "doc list \<Rightarrow> env" where
  "spec_env known =
     \<lparr>isValidDoc = spec_isValidDoc,
      isId = spec_isId,
      isObject = spec_isObject,
      isQueryMatch = spec_isQueryMatch,
      isValidUpdate = spec_isValidUpdate,
      hasOperators = spec_hasOperators,
      modify = spec_modify,
      project = spec_project,
      json_parse = parse_known known,
      json_stringify = stringify_doc,
      path_resolve = (\<lambda>r n. r @ ''/'' @ n)\<rparr>"

section \<open>Properties of the index\<close>

text \<open>
  The identifier sequence and the mapping are in bijection: no identifier occurs twice in the
  sequence, and the identifiers of the sequence are the keys of the mapping.
\<close>

definition in_bijection :: "leafdb \<Rightarrow> bool" where
  "in_bijection s = (distinct (db_list s) \<and> set (db_list s) = dom (db_map s))"

text \<open>The identifier holds a tombstoned document; a live one.\<close>

definition tombstoned :: "leafdb \<Rightarrow> string \<Rightarrow> bool" where
  "tombstoned s i = (case db_map s i of None \<Rightarrow> False | Some d \<Rightarrow> is_deleted d)"

definition live :: "leafdb \<Rightarrow> string \<Rightarrow> bool" where
  "live s i = (case db_map s i of None \<Rightarrow> False | Some d \<Rightarrow> \<not> is_deleted d)"

text \<open>The store without its tombstoned documents.\<close>

definition purge :: "leafdb \<Rightarrow> leafdb" where
  "purge s =
     s\<lparr>db_list := filter (\<lambda>i. \<not> tombstoned s i) (db_list s),
       db_map := (\<lambda>i. if tombstoned s i then None else db_map s i)\<rparr>"

text \<open>
  The identifier passes the test of \<open>find\<close>, \<open>update\<close> and \<open>delete\<close>: a live
  document that the query matches.
\<close>

definition selected :: "env \<Rightarrow> leafdb \<Rightarrow> query \<Rightarrow> string \<Rightarrow> bool" where
  "selected e s q i = (case live_match e s i q of Inl err \<Rightarrow> False | Inr (d, b) \<Rightarrow> b)"

text \<open>The store with the documents under the chosen identifiers tombstoned, or replaced.\<close>

definition tombstone_where :: "(string \<Rightarrow> bool) \<Rightarrow> leafdb \<Rightarrow> leafdb" where
  "tombstone_where P s =
     s\<lparr>db_map := (\<lambda>i. if P i then map_option tombstone (db_map s i) else db_map s i)\<rparr>"

definition replace_where :: "(string \<Rightarrow> bool) \<Rightarrow> update \<Rightarrow> leafdb \<Rightarrow> leafdb" where
  "replace_where P u s =
     s\<lparr>db_map := (\<lambda>i. if P i then Some (u\<lparr>d_id := Some i\<rparr>) else db_map s i)\<rparr>"

text \<open>The store with the chosen identifiers taken out of both halves of the index.\<close>

definition remove_where :: "(string \<Rightarrow> bool) \<Rightarrow> leafdb \<Rightarrow> leafdb" where
  "remove_where P s =
     s\<lparr>db_list := filter (\<lambda>i. \<not> P i) (db_list s),
       db_map := (\<lambda>i. if P i then None else db_map s i)\<rparr>"

text \<open>
  The stores a program can reach: the one the constructor returns, and the store any
  operation leaves, whether it succeeds or throws, whatever the arguments and the file system.
\<close>

inductive reachable :: "env \<Rightarrow> leafdb \<Rightarrow> bool" for e :: env where
  created: "reachable e (fst (constructor e opts fs))"
| inserted: "reachable e s \<Longrightarrow> reachable e (fst (insert_db e s uids payload))"
| updated: "reachable e s \<Longrightarrow> reachable e (fst (update e s q u p))"
| updated_by_id: "reachable e s \<Longrightarrow> reachable e (fst (updateById e s ids u p))"
| deleted: "reachable e s \<Longrightarrow> reachable e (fst (delete e s q))"
| deleted_by_id: "reachable e s \<Longrightarrow> reachable e (fst (deleteById e s ids))"
| loaded: "reachable e s \<Longrightarrow> reachable e (fst (load e s fs))"
| persisted: "reachable e s \<Longrightarrow> reachable e (fst (persist e s fs))"
| dropped: "reachable e s \<Longrightarrow> reachable e (fst (drop_db e s fs))"

section \<open>Properties of the backing file\<close>

text \<open>
  A line of the backing file is corrupt when it is not empty and does not parse, or parses to
  something that fails the validation of a restored document. \<open>restored\<close> are the documents
  of the other non-empty lines, in the order of the lines.
\<close>

definition corrupt :: "env \<Rightarrow> string \<Rightarrow> bool" where
  "corrupt e raw =
     (raw \<noteq> [] \<and> (case json_parse e raw of None \<Rightarrow> True | Some d \<Rightarrow> \<not> isValidDoc e d True))"

definition restored :: "env \<Rightarrow> string list \<Rightarrow> doc list" where
  "restored e raws =
     concat (map (\<lambda>raw. if raw = [] then []
                         else (case load_try e raw of None \<Rightarrow> [] | Some d \<Rightarrow> [d])) raws)"

text \<open>
  What \<open>persist\<close> does with an identifier of the sequence. It fails on it when the
  mapping has no entry for it or the document is live and does not serialize; \<open>persist_lines\<close>
  are the lines of the live documents that serialize, in the order of the sequence;
  \<open>pushed\<close> is what the \<open>try\<close> block adds to the payload for one identifier.
\<close>

definition persist_fails :: "env \<Rightarrow> leafdb \<Rightarrow> string \<Rightarrow> bool" where
  "persist_fails e s i =
     (case db_map s i of
        None \<Rightarrow> True
      | Some d \<Rightarrow> \<not> is_deleted d \<and> json_stringify e d = None)"

definition persist_lines :: "env \<Rightarrow> leafdb \<Rightarrow> string list" where
  "persist_lines e s =
     concat (map (\<lambda>i. case db_map s i of
                         None \<Rightarrow> []
                       | Some d \<Rightarrow>
                           if is_deleted d then []
                           else (case json_stringify e d of None \<Rightarrow> [] | Some l \<Rightarrow> [l]))
               (db_list s))"

definition pushed :: "env \<Rightarrow> leafdb \<Rightarrow> string \<Rightarrow> string list" where
  "pushed e s i = (case persist_try e s i of None \<Rightarrow> [] | Some out \<Rightarrow> out)"

text \<open>
  What the round trip through the file needs from \<open>JSON.stringify\<close>, \<open>JSON.parse\<close> and
  the validation, for a document \<open>d\<close> stored under the identifier \<open>i\<close>: the document
  carries this identifier and is a valid restored document; it is written as one non-empty line
  without a line break; and that line parses back to the same document. \<open>live_docs\<close> are
  the live documents under the given identifiers, in their order.
\<close>

definition roundtrips :: "env \<Rightarrow> string \<Rightarrow> doc \<Rightarrow> bool" where
  "roundtrips e i d =
     (d_id d = Some i \<and> isValidDoc e d True \<and>
      (case json_stringify e d of
         None \<Rightarrow> False
       | Some l \<Rightarrow> l \<noteq> [] \<and> newline \<notin> set l \<and> json_parse e l = Some d))"

definition live_docs :: "leafdb \<Rightarrow> string list \<Rightarrow> doc list" where
  "live_docs s ids =
     concat (map (\<lambda>i. case db_map s i of
                         None \<Rightarrow> []
                       | Some d \<Rightarrow> if is_deleted d then [] else [d]) ids)"

section \<open>The stores of the examples\<close>

text \<open>
  The three documents of the scenarios, the store that holds them, queries and updates on it,
  a store with the second document tombstoned, and a store with a document that does not
  serialize. The lines are what \<open>stringify_doc\<close> writes for the documents.
\<close>

definition ex_doc1 :: doc where
  "ex_doc1 = \<lparr>d_id = Some ''1'', d_deleted = None, d_fields = [(''type'', JStr ''normal'')]\<rparr>"

definition ex_doc2 :: doc where
  "ex_doc2 = \<lparr>d_id = Some ''2'', d_deleted = None,
               d_fields = [(''type'', JStr ''normal''), (''important'', JBool True)]\<rparr>"

definition ex_doc3 :: doc where
  "ex_doc3 = \<lparr>d_id = Some ''3'', d_deleted = None, d_fields = [(''type'', JStr ''strong'')]\<rparr>"

definition ex_store :: leafdb where
  "ex_store =
     \<lparr>db_strict = False, db_file = Some ''data/leafdb.txt'',
      db_map = [''1'' \<mapsto> ex_doc1, ''2'' \<mapsto> ex_doc2, ''3'' \<mapsto> ex_doc3],
      db_list = [''1'', ''2'', ''3'']\<rparr>"

definition ex_replacement :: update where
  "ex_replacement = \<lparr>d_id = None, d_deleted = None, d_fields = [(''type'', JStr ''weak'')]\<rparr>"

definition ex_query_id2 :: query where
  "ex_query_id2 = JObj [(''_id'', JStr ''2'')]"

definition ex_deleted_store :: leafdb where
  "ex_deleted_store = ex_store\<lparr>db_map := (db_map ex_store)(''2'' \<mapsto> tombstone ex_doc2)\<rparr>"

definition ex_set_value :: update where
  "ex_set_value =
     \<lparr>d_id = None, d_deleted = None, d_fields = [(''$set'', JObj [(''value'', JNum 3)])]\<rparr>"

definition ex_options :: options where
  "ex_options =
     \<lparr>opt_name = None, opt_root = Some ''data'', opt_disableAutoload = False, opt_strict = False\<rparr>"

definition ex_empty_store :: leafdb where
  "ex_empty_store =
     \<lparr>db_strict = False, db_file = Some ''data/leafdb.txt'', db_map = Map.empty, db_list = []\<rparr>"

definition ex_bad_doc :: doc where
  "ex_bad_doc = \<lparr>d_id = Some ''2'', d_deleted = None, d_fields = [(''$type'', JStr ''normal'')]\<rparr>"

definition ex_uids :: "nat \<Rightarrow> string" where
  "ex_uids n = replicate (Suc n) (CHR ''u'')"

definition ex_line1 :: string where
  "ex_line1 = ''{'' @ quote ''_id'' @ '':'' @ quote ''1'' @ '','' @ quote ''type'' @ '':'' @
              quote ''normal'' @ ''}''"

definition ex_content :: string where
  "ex_content = ex_line1 @ newline # ''{oops''"

definition ex_fs :: filesystem where
  "ex_fs = [''data/leafdb.txt'' \<mapsto> ex_content]"

definition ex_doc1_later :: doc where
  "ex_doc1_later = \<lparr>d_id = Some ''1'', d_deleted = None, d_fields = [(''type'', JStr ''strong'')]\<rparr>"

definition ex_line1_later :: string where
  "ex_line1_later = ''{'' @ quote ''_id'' @ '':'' @ quote ''1'' @ '','' @ quote ''type'' @ '':'' @
                    quote ''strong'' @ ''}''"

definition ex_doc4 :: doc where
  "ex_doc4 = \<lparr>d_id = Some ''4'', d_deleted = None, d_fields = [(''size'', JBigInt 1)]\<rparr>"

definition ex_mixed_store :: leafdb where
  "ex_mixed_store =
     \<lparr>db_strict = False, db_file = Some ''data/leafdb.txt'',
      db_map = [''1'' \<mapsto> ex_doc1, ''2'' \<mapsto> tombstone ex_doc2, ''4'' \<mapsto> ex_doc4],
      db_list = [''1'', ''2'', ''4'']\<rparr>"

definition ex_line3 :: string where
  "ex_line3 = ''{'' @ quote ''_id'' @ '':'' @ quote ''3'' @ '','' @ quote ''type'' @ '':'' @
              quote ''strong'' @ ''}''"

section \<open>Delete and update by identifier\<close>

lemma db_map_cong: "f = g \<Longrightarrow> s\<lparr>db_map := f\<rparr> = s\<lparr>db_map := g\<rparr>"
  by simp

lemma live_tombstone_upd:
  "live (s\<lparr>db_map := (db_map s)(i \<mapsto> tombstone d)\<rparr>) j = (j \<noteq> i \<and> live s j)"
  by (simp add: live_def tombstone_def is_deleted_def)

lemma card_insert_sel:
  "P i \<Longrightarrow> card {j. (j = i \<or> j \<in> set ids) \<and> P j} = Suc (card {j \<in> set ids. j \<noteq> i \<and> P j})"
proof -
  assume l: "P i"
  have eq: "{j. (j = i \<or> j \<in> set ids) \<and> P j} = insert i {j \<in> set ids. j \<noteq> i \<and> P j}"
    using l by auto
  have fin: "finite {j \<in> set ids. j \<noteq> i \<and> P j}" by simp
  have ni: "i \<notin> {j \<in> set ids. j \<noteq> i \<and> P j}" by simp
  show ?thesis unfolding eq using fin ni by (rule card_insert_disjoint)
qed

lemma deleteById_loop_closed:
  "\<forall>i\<in>set ids. isId e i \<Longrightarrow>
   deleteById_loop e s ids n =
     (tombstone_where (\<lambda>i. i \<in> set ids \<and> live s i) s, Inr (n + card {i \<in> set ids. live s i}))"
proof (induction ids arbitrary: s n)
  case Nil
  show ?case by (simp add: tombstone_where_def)
next
  case (Cons i ids)
  show ?case
  proof (cases "live s i")
    case True
    then obtain d where d: "db_map s i = Some d" "\<not> is_deleted d"
      by (auto simp: live_def split: option.splits)
    let ?s1 = "s\<lparr>db_map := (db_map s)(i \<mapsto> tombstone d)\<rparr>"
    have st: "tombstone_where (\<lambda>j. j \<in> set ids \<and> live ?s1 j) ?s1
                = tombstone_where (\<lambda>j. j \<in> set (i # ids) \<and> live s j) s"
      using True d by (auto simp: tombstone_where_def live_tombstone_upd fun_eq_iff)
    have "{j \<in> set ids. live ?s1 j} = {j \<in> set ids. j \<noteq> i \<and> live s j}"
      by (auto simp: live_tombstone_upd)
    then have c: "Suc (card {j \<in> set ids. live ?s1 j}) = card {j \<in> set (i # ids). live s j}"
      using card_insert_sel [of "live s", OF True, of ids] by simp
    from Cons.prems have "deleteById_loop e s (i # ids) n = deleteById_loop e ?s1 ids (n + 1)"
      using d by simp
    also have "\<dots> = (tombstone_where (\<lambda>j. j \<in> set ids \<and> live ?s1 j) ?s1,
                       Inr (n + 1 + card {j \<in> set ids. live ?s1 j}))"
      using Cons.prems by (intro Cons.IH) simp
    finally show ?thesis using st c by simp
  next
    case False
    have st: "tombstone_where (\<lambda>j. j \<in> set ids \<and> live s j) s
                = tombstone_where (\<lambda>j. j \<in> set (i # ids) \<and> live s j) s"
      using False by (auto simp: tombstone_where_def fun_eq_iff)
    have c: "{j \<in> set ids. live s j} = {j \<in> set (i # ids). live s j}"
      using False by auto
    from Cons.prems False have "deleteById_loop e s (i # ids) n = deleteById_loop e s ids n"
      by (auto simp: live_def split: option.splits)
    also have "\<dots> = (tombstone_where (\<lambda>j. j \<in> set ids \<and> live s j) s,
                       Inr (n + card {j \<in> set ids. live s j}))"
      using Cons.prems by (intro Cons.IH) simp
    finally show ?thesis using st c by simp
  qed
qed

lemma deleteById_loop_stops:
  "\<not> isId e bad \<Longrightarrow> \<forall>i\<in>set pre. isId e i \<Longrightarrow>
   deleteById_loop e s (pre @ bad # rest) n =
     (fst (deleteById_loop e s pre n), Inl (InvalidId bad))"
  by (induction pre arbitrary: s n) (auto split: option.splits)

lemma updateById_loop_stops:
  "\<not> isId e bad \<Longrightarrow> snd (updateById_loop e s pre u p acc) = Inr docs \<Longrightarrow>
   updateById_loop e s (pre @ bad # rest) u p acc =
     (fst (updateById_loop e s pre u p acc), Inl (InvalidId bad))"
  by (induction pre arbitrary: s acc) (auto split: option.splits)

lemma live_replace_upd:
  "live (s\<lparr>db_map := (db_map s)(i \<mapsto> d)\<rparr>) j = (if j = i then \<not> is_deleted d else live s j)"
  by (simp add: live_def)

lemma updateById_loop_replace:
  "\<not> hasOperators e u \<Longrightarrow> \<forall>i\<in>set ids. isId e i \<Longrightarrow>
   fst (updateById_loop e s ids u p acc) = replace_where (\<lambda>i. i \<in> set ids \<and> live s i) u s \<and>
   (\<exists>docs. snd (updateById_loop e s ids u p acc) = Inr docs)"
proof (induction ids arbitrary: s acc)
  case Nil
  show ?case by (simp add: replace_where_def)
next
  case (Cons i ids)
  show ?case
  proof (cases "live s i")
    case True
    then obtain d where d: "db_map s i = Some d" "\<not> is_deleted d"
      by (auto simp: live_def split: option.splits)
    let ?d' = "u\<lparr>d_id := Some i\<rparr>"
    let ?s1 = "s\<lparr>db_map := (db_map s)(i \<mapsto> ?d')\<rparr>"
    have nd: "new_doc e d u i = Some ?d'"
      using Cons.prems(1) by (simp add: new_doc_def)
    have st: "replace_where (\<lambda>j. j \<in> set ids \<and> live ?s1 j) u ?s1
                = replace_where (\<lambda>j. j \<in> set (i # ids) \<and> live s j) u s"
      using True
      by (simp add: replace_where_def live_replace_upd, intro db_map_cong ext, auto)
    have step: "updateById_loop e s (i # ids) u p acc
                  = updateById_loop e ?s1 ids u p (acc @ [project e ?d' p])"
      using Cons.prems(2) d nd by simp
    have "fst (updateById_loop e ?s1 ids u p (acc @ [project e ?d' p]))
            = replace_where (\<lambda>j. j \<in> set ids \<and> live ?s1 j) u ?s1 \<and>
          (\<exists>docs. snd (updateById_loop e ?s1 ids u p (acc @ [project e ?d' p])) = Inr docs)"
      using Cons.prems by (intro Cons.IH) simp_all
    then show ?thesis unfolding step st .
  next
    case False
    have st: "replace_where (\<lambda>j. j \<in> set ids \<and> live s j) u s
                = replace_where (\<lambda>j. j \<in> set (i # ids) \<and> live s j) u s"
      using False by (simp add: replace_where_def, intro db_map_cong ext, auto)
    have step: "updateById_loop e s (i # ids) u p acc = updateById_loop e s ids u p acc"
      using Cons.prems(2) False by (auto simp: live_def split: option.splits)
    have "fst (updateById_loop e s ids u p acc)
            = replace_where (\<lambda>j. j \<in> set ids \<and> live s j) u s \<and>
          (\<exists>docs. snd (updateById_loop e s ids u p acc) = Inr docs)"
      using Cons.prems by (intro Cons.IH) simp_all
    then show ?thesis unfolding step st .
  qed
qed

text \<open>
  C9. \<open>deleteById\<close> and \<open>updateById\<close> check each identifier inside the loop. When the
  identifiers before an invalid one are valid and name live documents, the call fails with the
  error for the invalid identifier, and the effects on the earlier documents stay: they are
  tombstoned, respectively replaced (in replacement mode), and in general the store is the one a
  successful call on the earlier identifiers alone leaves.
\<close>

theorem byId_error_keeps_earlier_effects:
  assumes bad: "\<not> isId e bad"
    and pre: "\<forall>i\<in>set pre. isId e i \<and> live s i"
  shows "deleteById e s (pre @ bad # rest)
           = (tombstone_where (\<lambda>i. i \<in> set pre) s, Inl (InvalidId bad)) \<and>
         (\<forall>i\<in>set pre. tombstoned (fst (deleteById e s (pre @ bad # rest))) i) \<and>
         (isValidUpdate e u \<and> \<not> hasOperators e u \<longrightarrow>
            updateById e s (pre @ bad # rest) u p
              = (replace_where (\<lambda>i. i \<in> set pre) u s, Inl (InvalidId bad))) \<and>
         (isValidUpdate e u \<and> (\<exists>docs. snd (updateById e s pre u p) = Inr docs) \<longrightarrow>
            updateById e s (pre @ bad # rest) u p
              = (fst (updateById e s pre u p), Inl (InvalidId bad)))"
proof -
  have ids: "\<forall>i\<in>set pre. isId e i" using pre by simp
  have same: "(\<lambda>i. i \<in> set pre \<and> live s i) = (\<lambda>i. i \<in> set pre)"
    using pre by (auto simp: fun_eq_iff)
  have del: "deleteById e s (pre @ bad # rest)
               = (tombstone_where (\<lambda>i. i \<in> set pre) s, Inl (InvalidId bad))"
    unfolding deleteById_def
    by (simp add: deleteById_loop_stops [OF bad ids] deleteById_loop_closed [OF ids] same)
  have tomb: "\<forall>i\<in>set pre. tombstoned (fst (deleteById e s (pre @ bad # rest))) i"
    unfolding del using pre
    by (auto simp: tombstoned_def tombstone_where_def live_def tombstone_def is_deleted_def
             split: option.splits)
  have upd_gen: "updateById e s (pre @ bad # rest) u p
                   = (fst (updateById e s pre u p), Inl (InvalidId bad))"
    if "isValidUpdate e u" "snd (updateById e s pre u p) = Inr docs" for docs
    using that updateById_loop_stops [OF bad, of s pre u p "[]" docs rest]
    by (simp add: updateById_def)
  have upd_repl: "updateById e s (pre @ bad # rest) u p
                   = (replace_where (\<lambda>i. i \<in> set pre) u s, Inl (InvalidId bad))"
    if v: "isValidUpdate e u" and r: "\<not> hasOperators e u"
  proof -
    from updateById_loop_replace [OF r ids, of s p "[]"]
    obtain docs where f: "fst (updateById_loop e s pre u p []) = replace_where (\<lambda>i. i \<in> set pre) u s"
      and g: "snd (updateById_loop e s pre u p []) = Inr docs"
      unfolding same by blast
    have "snd (updateById e s pre u p) = Inr docs" using v g by (simp add: updateById_def)
    from upd_gen [OF v this] show ?thesis using v f by (simp add: updateById_def)
  qed
  show ?thesis using del tomb upd_gen upd_repl by blast
qed


theorem byId_error_keeps_earlier_effects_witness:
  "\<not> isId (spec_env []) [] \<and>
   isId (spec_env []) ''1'' \<and> live ex_store ''1'' \<and>
   deleteById (spec_env []) ex_store [''1'', [], ''2'']
     = (tombstone_where (\<lambda>i. i \<in> set [''1'']) ex_store, Inl (InvalidId [])) \<and>
   tombstoned (fst (deleteById (spec_env []) ex_store [''1'', [], ''2''])) ''1'' \<and>
   isValidUpdate (spec_env []) ex_replacement \<and> \<not> hasOperators (spec_env []) ex_replacement \<and>
   updateById (spec_env []) ex_store [''1'', [], ''2''] ex_replacement None
     = (replace_where (\<lambda>i. i \<in> set [''1'']) ex_replacement ex_store, Inl (InvalidId [])) \<and>
   db_map (fst (updateById (spec_env []) ex_store [''1'', [], ''2''] ex_replacement None)) ''1''
     = Some (ex_replacement\<lparr>d_id := Some ''1''\<rparr>) \<and>
   db_map (fst (updateById (spec_env []) ex_store [''1'', [], ''2''] ex_replacement None)) ''2''
     = Some ex_doc2"
proof -
  have bad: "\<not> isId (spec_env []) []"
    by (simp add: spec_env_def spec_isId_def)
  have pre: "\<forall>i\<in>set [''1'']. isId (spec_env []) i \<and> live ex_store i"
    by (simp add: spec_env_def spec_isId_def live_def ex_store_def ex_doc1_def is_deleted_def)
  have upd: "isValidUpdate (spec_env []) ex_replacement \<and> \<not> hasOperators (spec_env []) ex_replacement"
    by (simp add: spec_env_def spec_isValidUpdate_def spec_hasOperators_def ex_replacement_def
          legal_key_def starts_with_dollar_def)
  note th = byId_error_keeps_earlier_effects [OF bad pre, of "[''2'']" ex_replacement None]
  from th have d: "deleteById (spec_env []) ex_store [''1'', [], ''2'']
     = (tombstone_where (\<lambda>i. i \<in> set [''1'']) ex_store, Inl (InvalidId []))"
    by simp
  from th have "\<forall>i\<in>set [''1'']. tombstoned (fst (deleteById (spec_env []) ex_store ([''1''] @ [] # [''2'']))) i"
    by (rule conjunct1 [OF conjunct2])
  then have t: "tombstoned (fst (deleteById (spec_env []) ex_store [''1'', [], ''2''])) ''1''"
    by simp
  from th upd have r: "updateById (spec_env []) ex_store [''1'', [], ''2''] ex_replacement None
     = (replace_where (\<lambda>i. i \<in> set [''1'']) ex_replacement ex_store, Inl (InvalidId []))"
    by simp
  have m1: "db_map (fst (updateById (spec_env []) ex_store [''1'', [], ''2''] ex_replacement None)) ''1''
     = Some (ex_replacement\<lparr>d_id := Some ''1''\<rparr>)"
    unfolding r by (simp add: replace_where_def)
  have m2: "db_map (fst (updateById (spec_env []) ex_store [''1'', [], ''2''] ex_replacement None)) ''2''
     = Some ex_doc2"
    unfolding r by (simp add: replace_where_def ex_store_def)
  from pre have pre1: "isId (spec_env []) ''1'' \<and> live ex_store ''1''" by simp
  show ?thesis using bad pre1 upd d t r m1 m2 by blast
qed

section \<open>Delete by query, and what find returns\<close>

lemma live_match_upd:
  "live_match e (s\<lparr>db_map := (db_map s)(i \<mapsto> d')\<rparr>) j q =
     (if j = i then live_match e (s\<lparr>db_map := [i \<mapsto> d']\<rparr>) i q else live_match e s j q)"
  by (simp add: live_match_def)

lemma live_match_tombstone [simp]:
  "live_match e (s\<lparr>db_map := [i \<mapsto> tombstone d]\<rparr>) i q = Inr (tombstone d, False)"
  by (simp add: live_match_def tombstone_def is_deleted_def)

lemma selected_tombstone_upd:
  "selected e (s\<lparr>db_map := (db_map s)(i \<mapsto> tombstone d)\<rparr>) q j = (j \<noteq> i \<and> selected e s q j)"
  by (simp add: selected_def live_match_upd)

lemma selectedD:
  "selected e s q i \<Longrightarrow> \<exists>d. live_match e s i q = Inr (d, True) \<and> db_map s i = Some d \<and> \<not> is_deleted d"
  by (auto simp: selected_def live_match_def split: sum.splits option.splits if_splits)

lemma not_selectedD:
  "\<not> selected e s q i \<Longrightarrow> \<not> isl (live_match e s i q) \<Longrightarrow> \<exists>d. live_match e s i q = Inr (d, False)"
  by (cases "live_match e s i q") (auto simp: selected_def)

lemma delete_loop_closed:
  "\<forall>i\<in>set ids. \<not> isl (live_match e s i q) \<Longrightarrow>
   delete_loop e s ids q n =
     (tombstone_where (\<lambda>i. i \<in> set ids \<and> selected e s q i) s,
      Inr (n + card {i \<in> set ids. selected e s q i}))"
proof (induction ids arbitrary: s n)
  case Nil
  show ?case by (simp add: tombstone_where_def)
next
  case (Cons i ids)
  show ?case
  proof (cases "selected e s q i")
    case True
    from selectedD [OF True] obtain d where
      d: "live_match e s i q = Inr (d, True)" "db_map s i = Some d" by blast
    let ?s1 = "s\<lparr>db_map := (db_map s)(i \<mapsto> tombstone d)\<rparr>"
    have st: "tombstone_where (\<lambda>j. j \<in> set ids \<and> selected e ?s1 q j) ?s1
                = tombstone_where (\<lambda>j. j \<in> set (i # ids) \<and> selected e s q j) s"
      using True d
      by (simp add: tombstone_where_def selected_tombstone_upd, intro db_map_cong ext, auto)
    have "{j \<in> set ids. selected e ?s1 q j} = {j \<in> set ids. j \<noteq> i \<and> selected e s q j}"
      by (auto simp: selected_tombstone_upd)
    then have c: "Suc (card {j \<in> set ids. selected e ?s1 q j})
                    = card {j \<in> set (i # ids). selected e s q j}"
      using card_insert_sel [of "selected e s q", OF True, of ids] by simp
    have ok: "\<forall>j\<in>set ids. \<not> isl (live_match e ?s1 j q)"
      using Cons.prems by (simp add: live_match_upd)
    have "delete_loop e s (i # ids) q n = delete_loop e ?s1 ids q (n + 1)"
      using d by simp
    also have "\<dots> = (tombstone_where (\<lambda>j. j \<in> set ids \<and> selected e ?s1 q j) ?s1,
                       Inr (n + 1 + card {j \<in> set ids. selected e ?s1 q j}))"
      using ok by (rule Cons.IH)
    finally show ?thesis using st c by simp
  next
    case False
    from Cons.prems have "\<not> isl (live_match e s i q)" by simp
    from not_selectedD [OF False this] obtain d where d: "live_match e s i q = Inr (d, False)" ..
    have st: "tombstone_where (\<lambda>j. j \<in> set ids \<and> selected e s q j) s
                = tombstone_where (\<lambda>j. j \<in> set (i # ids) \<and> selected e s q j) s"
      using False by (simp add: tombstone_where_def, intro db_map_cong ext, auto)
    have c: "{j \<in> set ids. selected e s q j} = {j \<in> set (i # ids). selected e s q j}"
      using False by auto
    have ok: "\<forall>j\<in>set ids. \<not> isl (live_match e s j q)"
      using Cons.prems by simp
    have "delete_loop e s (i # ids) q n = delete_loop e s ids q n"
      using d by simp
    also have "\<dots> = (tombstone_where (\<lambda>j. j \<in> set ids \<and> selected e s q j) s,
                       Inr (n + card {j \<in> set ids. selected e s q j}))"
      using ok by (rule Cons.IH)
    finally show ?thesis using st c by simp
  qed
qed

lemma find_loop_closed:
  "\<forall>i\<in>set ids. \<not> isl (live_match e s i q) \<Longrightarrow>
   find_loop e s ids q p acc =
     Inr (acc @ map (\<lambda>i. project e (the (db_map s i)) p) (filter (selected e s q) ids))"
proof (induction ids arbitrary: acc)
  case Nil
  show ?case by simp
next
  case (Cons i ids)
  show ?case
  proof (cases "selected e s q i")
    case True
    from selectedD [OF True] obtain d where
      d: "live_match e s i q = Inr (d, True)" "db_map s i = Some d" by blast
    show ?thesis using Cons d True by simp
  next
    case False
    from Cons.prems have "\<not> isl (live_match e s i q)" by simp
    from not_selectedD [OF False this] obtain d where d: "live_match e s i q = Inr (d, False)" ..
    show ?thesis using Cons d False by simp
  qed
qed

lemma newly_tombstoned:
  "{i. live s i \<and> tombstoned (tombstone_where P s) i} = {i. P i \<and> live s i}"
  by (auto simp: live_def tombstoned_def tombstone_where_def tombstone_def is_deleted_def
           split: option.splits)

lemma selected_live: "selected e s q i \<Longrightarrow> live s i"
  by (auto simp: live_def dest: selectedD)

lemma tombstoned_not_selected: "tombstoned s i \<Longrightarrow> \<not> selected e s q i"
  by (auto simp: tombstoned_def dest!: selectedD)

lemma tombstone_where_tombstoned:
  "P i \<Longrightarrow> db_map s i \<noteq> None \<Longrightarrow> tombstoned (tombstone_where P s) i"
  by (auto simp: tombstoned_def tombstone_where_def tombstone_def is_deleted_def)

lemma tombstone_where_keeps:
  "tombstoned s i \<Longrightarrow> \<forall>j. P j \<longrightarrow> live s j \<Longrightarrow> db_map (tombstone_where P s) i = db_map s i"
  by (auto simp: tombstoned_def live_def tombstone_where_def split: option.splits)




lemmas ex_simps = spec_env_def spec_isId_def spec_isObject_def spec_isQueryMatch_def doc_field_def
  legal_key_def starts_with_dollar_def live_match_def is_deleted_def tombstone_def
  ex_store_def ex_doc1_def ex_doc2_def ex_doc3_def ex_query_id2_def spec_project_def


section \<open>Tombstoned documents are out of every path\<close>

lemma live_match_hidden:
  "db_map s2 = (\<lambda>i. if i \<in> T then None else db_map s1 i) \<Longrightarrow> i \<notin> T \<Longrightarrow>
   live_match e s2 i q = live_match e s1 i q"
  by (simp add: live_match_def)

lemma live_match_tombstoned:
  "tombstoned s i \<Longrightarrow> \<exists>d. live_match e s i q = Inr (d, False)"
  by (auto simp: live_match_def tombstoned_def split: option.splits)

lemma hidden_upd:
  "db_map s2 = (\<lambda>i. if i \<in> T then None else db_map s1 i) \<Longrightarrow> i \<notin> T \<Longrightarrow>
   db_map (s2\<lparr>db_map := (db_map s2)(i \<mapsto> d)\<rparr>)
     = (\<lambda>j. if j \<in> T then None else db_map (s1\<lparr>db_map := (db_map s1)(i \<mapsto> d)\<rparr>) j)"
  by (auto simp: fun_eq_iff)

lemma tombstoned_upd_other:
  "\<forall>j\<in>T. tombstoned s j \<Longrightarrow> i \<notin> T \<Longrightarrow>
   \<forall>j\<in>T. tombstoned (s\<lparr>db_map := (db_map s)(i \<mapsto> d)\<rparr>) j"
  by (auto simp: tombstoned_def)

lemma findMany_loop_hidden:
  "\<forall>i\<in>T. tombstoned s1 i \<Longrightarrow> db_map s2 = (\<lambda>i. if i \<in> T then None else db_map s1 i) \<Longrightarrow>
   findMany_loop e s1 ids p acc = findMany_loop e s2 ids p acc"
proof (induction ids arbitrary: acc)
  case Nil
  show ?case by simp
next
  case (Cons i ids)
  show ?case
  proof (cases "i \<in> T")
    case True
    with Cons.prems have "tombstoned s1 i" "db_map s2 i = None" by simp_all
    then show ?thesis using Cons by (auto simp: tombstoned_def split: option.splits)
  next
    case False
    with Cons.prems have "db_map s2 i = db_map s1 i" by simp
    then show ?thesis using Cons by (simp split: option.splits)
  qed
qed

lemma find_loop_hidden:
  "\<forall>i\<in>T. tombstoned s1 i \<Longrightarrow> db_map s2 = (\<lambda>i. if i \<in> T then None else db_map s1 i) \<Longrightarrow>
   find_loop e s1 ids q p acc = find_loop e s2 (filter (\<lambda>i. i \<notin> T) ids) q p acc"
proof (induction ids arbitrary: acc)
  case Nil
  show ?case by simp
next
  case (Cons i ids)
  show ?case
  proof (cases "i \<in> T")
    case True
    with Cons.prems have "tombstoned s1 i" by simp
    from live_match_tombstoned [OF this] obtain d where "live_match e s1 i q = Inr (d, False)" ..
    then show ?thesis using True Cons by simp
  next
    case False
    from live_match_hidden [OF Cons.prems(2) False]
    have "live_match e s2 i q = live_match e s1 i q" .
    then show ?thesis using False Cons by (simp split: sum.splits)
  qed
qed

lemma update_loop_hidden:
  "\<forall>i\<in>T. tombstoned s1 i \<Longrightarrow> db_map s2 = (\<lambda>i. if i \<in> T then None else db_map s1 i) \<Longrightarrow>
   snd (update_loop e s1 ids q u p acc) = snd (update_loop e s2 (filter (\<lambda>i. i \<notin> T) ids) q u p acc) \<and>
   (\<forall>j\<in>T. db_map (fst (update_loop e s1 ids q u p acc)) j = db_map s1 j)"
proof (induction ids arbitrary: s1 s2 acc)
  case Nil
  show ?case by simp
next
  case (Cons i ids)
  show ?case
  proof (cases "i \<in> T")
    case True
    with Cons.prems have "tombstoned s1 i" by simp
    from live_match_tombstoned [OF this] obtain d where "live_match e s1 i q = Inr (d, False)" ..
    then show ?thesis using True Cons.IH [OF Cons.prems] by simp
  next
    case False
    from live_match_hidden [OF Cons.prems(2) False]
    have lm: "live_match e s2 i q = live_match e s1 i q" .
    show ?thesis
    proof (cases "live_match e s1 i q")
      case (Inl err)
      then show ?thesis using False lm by simp
    next
      case (Inr db)
      obtain d b where db: "db = (d, b)" by (cases db)
      show ?thesis
      proof (cases "b \<and> new_doc e d u i \<noteq> None")
        case True
        then obtain d' where d': "new_doc e d u i = Some d'" and b: b by auto
        let ?s1 = "s1\<lparr>db_map := (db_map s1)(i \<mapsto> d')\<rparr>"
        let ?s2 = "s2\<lparr>db_map := (db_map s2)(i \<mapsto> d')\<rparr>"
        have t1: "\<forall>j\<in>T. tombstoned ?s1 j"
          by (rule tombstoned_upd_other [OF Cons.prems(1) False])
        have h1: "db_map ?s2 = (\<lambda>j. if j \<in> T then None else db_map ?s1 j)"
          by (rule hidden_upd [OF Cons.prems(2) False])
        note ih = Cons.IH [OF t1 h1, of "acc @ [project e d' p]"]
        have "\<forall>j\<in>T. db_map ?s1 j = db_map s1 j" using False by auto
        then show ?thesis using False lm Inr db d' b ih by simp
      next
        case False2: False
        show ?thesis
        proof (cases b)
          case True
          with False2 have "new_doc e d u i = None" by simp
          then show ?thesis using False lm Inr db True by simp
        next
          case False3: False
          then show ?thesis using False lm Inr db Cons.IH [OF Cons.prems] by simp
        qed
      qed
    qed
  qed
qed

lemma delete_loop_hidden:
  "\<forall>i\<in>T. tombstoned s1 i \<Longrightarrow> db_map s2 = (\<lambda>i. if i \<in> T then None else db_map s1 i) \<Longrightarrow>
   snd (delete_loop e s1 ids q n) = snd (delete_loop e s2 (filter (\<lambda>i. i \<notin> T) ids) q n) \<and>
   (\<forall>j\<in>T. db_map (fst (delete_loop e s1 ids q n)) j = db_map s1 j)"
proof (induction ids arbitrary: s1 s2 n)
  case Nil
  show ?case by simp
next
  case (Cons i ids)
  show ?case
  proof (cases "i \<in> T")
    case True
    with Cons.prems have "tombstoned s1 i" by simp
    from live_match_tombstoned [OF this] obtain d where "live_match e s1 i q = Inr (d, False)" ..
    then show ?thesis using True Cons.IH [OF Cons.prems] by simp
  next
    case False
    from live_match_hidden [OF Cons.prems(2) False]
    have lm: "live_match e s2 i q = live_match e s1 i q" .
    show ?thesis
    proof (cases "live_match e s1 i q")
      case (Inl err)
      then show ?thesis using False lm by simp
    next
      case (Inr db)
      obtain d b where db: "db = (d, b)" by (cases db)
      show ?thesis
      proof (cases b)
        case True
        let ?s1 = "s1\<lparr>db_map := (db_map s1)(i \<mapsto> tombstone d)\<rparr>"
        let ?s2 = "s2\<lparr>db_map := (db_map s2)(i \<mapsto> tombstone d)\<rparr>"
        have t1: "\<forall>j\<in>T. tombstoned ?s1 j"
          by (rule tombstoned_upd_other [OF Cons.prems(1) False])
        have h1: "db_map ?s2 = (\<lambda>j. if j \<in> T then None else db_map ?s1 j)"
          by (rule hidden_upd [OF Cons.prems(2) False])
        note ih = Cons.IH [OF t1 h1, of "n + 1"]
        have "\<forall>j\<in>T. db_map ?s1 j = db_map s1 j" using False by auto
        then show ?thesis using False lm Inr db True ih by simp
      next
        case False3: False
        then show ?thesis using False lm Inr db Cons.IH [OF Cons.prems] by simp
      qed
    qed
  qed
qed

lemma deleteById_loop_hidden:
  "\<forall>i\<in>T. tombstoned s1 i \<Longrightarrow> db_map s2 = (\<lambda>i. if i \<in> T then None else db_map s1 i) \<Longrightarrow>
   snd (deleteById_loop e s1 ids n) = snd (deleteById_loop e s2 ids n) \<and>
   (\<forall>j\<in>T. db_map (fst (deleteById_loop e s1 ids n)) j = db_map s1 j)"
proof (induction ids arbitrary: s1 s2 n)
  case Nil
  show ?case by simp
next
  case (Cons i ids)
  show ?case
  proof (cases "isId e i")
    case noid: False
    then show ?thesis by simp
  next
    case isid: True
    show ?thesis
    proof (cases "i \<in> T")
      case True
      with Cons.prems have "tombstoned s1 i" "db_map s2 i = None" by simp_all
      then show ?thesis using isid Cons.IH [OF Cons.prems]
        by (auto simp: tombstoned_def split: option.splits)
    next
      case False
      with Cons.prems have same: "db_map s2 i = db_map s1 i" by simp
      show ?thesis
      proof (cases "live s1 i")
        case True
        then obtain d where d: "db_map s1 i = Some d" "\<not> is_deleted d"
          by (auto simp: live_def split: option.splits)
        let ?s1 = "s1\<lparr>db_map := (db_map s1)(i \<mapsto> tombstone d)\<rparr>"
        let ?s2 = "s2\<lparr>db_map := (db_map s2)(i \<mapsto> tombstone d)\<rparr>"
        have t1: "\<forall>j\<in>T. tombstoned ?s1 j"
          by (rule tombstoned_upd_other [OF Cons.prems(1) False])
        have h1: "db_map ?s2 = (\<lambda>j. if j \<in> T then None else db_map ?s1 j)"
          by (rule hidden_upd [OF Cons.prems(2) False])
        note ih = Cons.IH [OF t1 h1, of "n + 1"]
        have "\<forall>j\<in>T. db_map ?s1 j = db_map s1 j" using False by auto
        then show ?thesis using isid same d ih by simp
      next
        case nl: False
        then show ?thesis using isid same Cons.IH [OF Cons.prems]
          by (auto simp: live_def split: option.splits)
      qed
    qed
  qed
qed

lemma updateById_loop_hidden:
  "\<forall>i\<in>T. tombstoned s1 i \<Longrightarrow> db_map s2 = (\<lambda>i. if i \<in> T then None else db_map s1 i) \<Longrightarrow>
   snd (updateById_loop e s1 ids u p acc) = snd (updateById_loop e s2 ids u p acc) \<and>
   (\<forall>j\<in>T. db_map (fst (updateById_loop e s1 ids u p acc)) j = db_map s1 j)"
proof (induction ids arbitrary: s1 s2 acc)
  case Nil
  show ?case by simp
next
  case (Cons i ids)
  show ?case
  proof (cases "isId e i")
    case noid: False
    then show ?thesis by simp
  next
    case isid: True
    show ?thesis
    proof (cases "i \<in> T")
      case True
      with Cons.prems have "tombstoned s1 i" "db_map s2 i = None" by simp_all
      then show ?thesis using isid Cons.IH [OF Cons.prems]
        by (auto simp: tombstoned_def split: option.splits)
    next
      case False
      with Cons.prems have same: "db_map s2 i = db_map s1 i" by simp
      show ?thesis
      proof (cases "live s1 i")
        case True
        then obtain d where d: "db_map s1 i = Some d" "\<not> is_deleted d"
          by (auto simp: live_def split: option.splits)
        show ?thesis
        proof (cases "new_doc e d u i")
          case None
          then show ?thesis using isid same d by simp
        next
          case (Some d')
          let ?s1 = "s1\<lparr>db_map := (db_map s1)(i \<mapsto> d')\<rparr>"
          let ?s2 = "s2\<lparr>db_map := (db_map s2)(i \<mapsto> d')\<rparr>"
          have t1: "\<forall>j\<in>T. tombstoned ?s1 j"
            by (rule tombstoned_upd_other [OF Cons.prems(1) False])
          have h1: "db_map ?s2 = (\<lambda>j. if j \<in> T then None else db_map ?s1 j)"
            by (rule hidden_upd [OF Cons.prems(2) False])
          note ih = Cons.IH [OF t1 h1, of "acc @ [project e d' p]"]
          have "\<forall>j\<in>T. db_map ?s1 j = db_map s1 j" using False by auto
          then show ?thesis using isid same d Some ih by simp
        qed
      next
        case nl: False
        then show ?thesis using isid same Cons.IH [OF Cons.prems]
          by (auto simp: live_def split: option.splits)
      qed
    qed
  qed
qed

text \<open>
  C5. A tombstoned document is left out of every read, match and update path. Each operation
  answers on a store as it answers on the same store with the tombstoned documents taken out
  of the index (\<open>purge\<close>): \<open>findOne\<close>, \<open>findMany\<close> and \<open>find\<close> return the same
  documents, \<open>update\<close> and \<open>updateById\<close> return the same updated documents,
  \<open>delete\<close> and \<open>deleteById\<close> the same count (errors included). And the entry of a
  tombstoned document is the same after \<open>update\<close>, \<open>updateById\<close>, \<open>delete\<close> and
  \<open>deleteById\<close> as before; \<open>findOne\<close> on its identifier returns no document.
\<close>

theorem tombstoned_excluded:
  "findOne e s i p = findOne e (purge s) i p \<and>
   findMany e s ids p = findMany e (purge s) ids p \<and>
   find_db e s q p = find_db e (purge s) q p \<and>
   snd (update e s q u p) = snd (update e (purge s) q u p) \<and>
   snd (updateById e s ids u p) = snd (updateById e (purge s) ids u p) \<and>
   snd (delete e s q) = snd (delete e (purge s) q) \<and>
   snd (deleteById e s ids) = snd (deleteById e (purge s) ids) \<and>
   (tombstoned s k \<longrightarrow>
      (\<forall>d. findOne e s k p \<noteq> Inr (Some d)) \<and>
      db_map (fst (update e s q u p)) k = db_map s k \<and>
      db_map (fst (updateById e s ids u p)) k = db_map s k \<and>
      db_map (fst (delete e s q)) k = db_map s k \<and>
      db_map (fst (deleteById e s ids)) k = db_map s k)"
proof -
  let ?T = "{i. tombstoned s i}"
  have T: "\<forall>i\<in>?T. tombstoned s i" by simp
  have m: "db_map (purge s) = (\<lambda>i. if i \<in> ?T then None else db_map s i)"
    by (simp add: purge_def)
  have l: "db_list (purge s) = filter (\<lambda>i. i \<notin> ?T) (db_list s)"
    by (simp add: purge_def)
  have one: "findOne e s i p = findOne e (purge s) i p"
    by (auto simp: findOne_def purge_def tombstoned_def split: option.splits)
  have many: "findMany e s ids p = findMany e (purge s) ids p"
    unfolding findMany_def by (rule findMany_loop_hidden [OF T m])
  have fnd: "find_db e s q p = find_db e (purge s) q p"
    unfolding find_db_def l using find_loop_hidden [OF T m] by simp
  note u1 = update_loop_hidden [OF T m, of e "db_list s" q u p "[]"]
  note u2 = updateById_loop_hidden [OF T m, of e ids u p "[]"]
  note d1 = delete_loop_hidden [OF T m, of e "db_list s" q 0]
  note d2 = deleteById_loop_hidden [OF T m, of e ids 0]
  have upd: "snd (update e s q u p) = snd (update e (purge s) q u p)"
    unfolding update_def l using u1 by simp
  have updI: "snd (updateById e s ids u p) = snd (updateById e (purge s) ids u p)"
    unfolding updateById_def using u2 by simp
  have del: "snd (delete e s q) = snd (delete e (purge s) q)"
    unfolding delete_def l using d1 by simp
  have delI: "snd (deleteById e s ids) = snd (deleteById e (purge s) ids)"
    unfolding deleteById_def using d2 by simp
  have keep: "(\<forall>d. findOne e s k p \<noteq> Inr (Some d)) \<and>
      db_map (fst (update e s q u p)) k = db_map s k \<and>
      db_map (fst (updateById e s ids u p)) k = db_map s k \<and>
      db_map (fst (delete e s q)) k = db_map s k \<and>
      db_map (fst (deleteById e s ids)) k = db_map s k" if k: "tombstoned s k"
  proof -
    have a: "\<forall>d. findOne e s k p \<noteq> Inr (Some d)"
      using k by (auto simp: findOne_def tombstoned_def split: option.splits)
    have b: "db_map (fst (update e s q u p)) k = db_map s k"
      unfolding update_def using u1 k by simp
    have c: "db_map (fst (updateById e s ids u p)) k = db_map s k"
      unfolding updateById_def using u2 k by simp
    have d: "db_map (fst (delete e s q)) k = db_map s k"
      unfolding delete_def using d1 k by simp
    have f: "db_map (fst (deleteById e s ids)) k = db_map s k"
      unfolding deleteById_def using d2 k by simp
    show ?thesis using a b c d f by blast
  qed
  show ?thesis using one many fnd upd updI del delI keep by blast
qed


theorem tombstoned_excluded_witness:
  "tombstoned ex_deleted_store ''2'' \<and>
   findOne (spec_env []) ex_deleted_store ''2'' None = Inr None \<and>
   findMany (spec_env []) ex_deleted_store [''1'', ''2''] None = Inr [ex_doc1] \<and>
   find_db (spec_env []) ex_deleted_store (JObj []) None = Inr [ex_doc1, ex_doc3] \<and>
   find_db (spec_env []) (purge ex_deleted_store) (JObj []) None = Inr [ex_doc1, ex_doc3] \<and>
   db_map (fst (update (spec_env []) ex_deleted_store (JObj []) ex_replacement None)) ''2''
     = Some (tombstone ex_doc2) \<and>
   db_map (fst (updateById (spec_env []) ex_deleted_store [''1'', ''2''] ex_replacement None)) ''2''
     = Some (tombstone ex_doc2) \<and>
   db_map (fst (delete (spec_env []) ex_deleted_store (JObj []))) ''2'' = Some (tombstone ex_doc2) \<and>
   snd (delete (spec_env []) ex_deleted_store (JObj [])) = Inr 2 \<and>
   snd (deleteById (spec_env []) ex_deleted_store [''1'', ''2'']) = Inr 1"
proof -
  note th = tombstoned_excluded [of "spec_env []" ex_deleted_store "''2''" None "[''1'', ''2'']"
      "JObj []" ex_replacement "''2''"]
  have t: "tombstoned ex_deleted_store ''2''"
    by (simp add: tombstoned_def ex_deleted_store_def tombstone_def is_deleted_def)
  have m: "db_map ex_deleted_store ''2'' = Some (tombstone ex_doc2)"
    by (simp add: ex_deleted_store_def)
  have one: "findOne (spec_env []) ex_deleted_store ''2'' None = Inr None"
    by (simp add: findOne_def ex_deleted_store_def ex_simps)
  have many: "findMany (spec_env []) ex_deleted_store [''1'', ''2''] None = Inr [ex_doc1]"
    by (simp add: findMany_def ex_deleted_store_def ex_simps)
  have f: "find_db (spec_env []) ex_deleted_store (JObj []) None = Inr [ex_doc1, ex_doc3]"
    by (simp add: find_db_def ex_deleted_store_def ex_simps)
  from th f have fp: "find_db (spec_env []) (purge ex_deleted_store) (JObj []) None = Inr [ex_doc1, ex_doc3]"
    by simp
  from th t m have u: "db_map (fst (update (spec_env []) ex_deleted_store (JObj []) ex_replacement None)) ''2''
     = Some (tombstone ex_doc2)" by simp
  from th t m have ui: "db_map (fst (updateById (spec_env []) ex_deleted_store [''1'', ''2''] ex_replacement None)) ''2''
     = Some (tombstone ex_doc2)" by simp
  from th t m have d: "db_map (fst (delete (spec_env []) ex_deleted_store (JObj []))) ''2'' = Some (tombstone ex_doc2)"
    by simp
  have dc: "snd (delete (spec_env []) ex_deleted_store (JObj [])) = Inr 2"
    by (simp add: delete_def ex_deleted_store_def ex_simps)
  have dic: "snd (deleteById (spec_env []) ex_deleted_store [''1'', ''2'']) = Inr 1"
    by (simp add: deleteById_def ex_deleted_store_def ex_simps)
  show ?thesis using t one many f fp u ui d dc dic by blast
qed

section \<open>Updates keep the identifier\<close>

lemma new_doc_id: "new_doc e d u i = Some d' \<Longrightarrow> d_id d' = Some i"
  by (auto simp: new_doc_def split: option.splits if_splits)

lemma update_loop_keeps_id:
  "db_map s k = Some d \<Longrightarrow> d_id d = Some k \<Longrightarrow>
   \<exists>d'. db_map (fst (update_loop e s ids q u p acc)) k = Some d' \<and> d_id d' = Some k"
proof (induction ids arbitrary: s d acc)
  case Nil
  then show ?case by simp
next
  case (Cons i ids)
  show ?case
  proof (cases "live_match e s i q")
    case (Inl err)
    then show ?thesis using Cons.prems by simp
  next
    case (Inr db)
    obtain d0 b where db: "db = (d0, b)" by (cases db)
    show ?thesis
    proof (cases "b \<and> new_doc e d0 u i \<noteq> None")
      case True
      then obtain d' where d': "new_doc e d0 u i = Some d'" and b: b by auto
      let ?s1 = "s\<lparr>db_map := (db_map s)(i \<mapsto> d')\<rparr>"
      have "\<exists>x. db_map ?s1 k = Some x \<and> d_id x = Some k"
        using Cons.prems new_doc_id [OF d'] by auto
      then obtain x where "db_map ?s1 k = Some x" "d_id x = Some k" by blast
      from Cons.IH [OF this] show ?thesis using Inr db d' b by simp
    next
      case False
      then show ?thesis using Inr db Cons.IH [OF Cons.prems] Cons.prems
        by (cases b) auto
    qed
  qed
qed

lemma updateById_loop_keeps_id:
  "db_map s k = Some d \<Longrightarrow> d_id d = Some k \<Longrightarrow>
   \<exists>d'. db_map (fst (updateById_loop e s ids u p acc)) k = Some d' \<and> d_id d' = Some k"
proof (induction ids arbitrary: s d acc)
  case Nil
  then show ?case by simp
next
  case (Cons i ids)
  show ?case
  proof (cases "isId e i \<and> live s i")
    case True
    then obtain d0 where d0: "db_map s i = Some d0" "\<not> is_deleted d0"
      by (auto simp: live_def split: option.splits)
    show ?thesis
    proof (cases "new_doc e d0 u i")
      case None
      then show ?thesis using True d0 Cons.prems by simp
    next
      case (Some d')
      let ?s1 = "s\<lparr>db_map := (db_map s)(i \<mapsto> d')\<rparr>"
      have "\<exists>x. db_map ?s1 k = Some x \<and> d_id x = Some k"
        using Cons.prems new_doc_id [OF Some] by auto
      then obtain x where "db_map ?s1 k = Some x" "d_id x = Some k" by blast
      from Cons.IH [OF this] show ?thesis using True d0 Some by simp
    qed
  next
    case False
    then show ?thesis using Cons.IH [OF Cons.prems] Cons.prems
      by (auto simp: live_def split: option.splits)
  qed
qed

text \<open>
  C6. Both update paths store \<open>{ ...newDoc, _id }\<close> under the identifier they looked the
  document up with. A document stored under its own identifier is therefore, after
  \<open>update\<close> or \<open>updateById\<close> with any query, update and projection (replacement or
  modifiers, and also when the call fails part-way), still stored there with the same
  identifier.
\<close>

theorem update_keeps_identifier:
  assumes "db_map s k = Some d" and "d_id d = Some k"
  shows "(\<exists>d'. db_map (fst (update e s q u p)) k = Some d' \<and> d_id d' = Some k) \<and>
         (\<exists>d'. db_map (fst (updateById e s ids u p)) k = Some d' \<and> d_id d' = Some k)"
  using assms update_loop_keeps_id [OF assms, of e "db_list s" q u p "[]"]
    updateById_loop_keeps_id [OF assms, of e ids u p "[]"]
  by (simp add: update_def updateById_def)

theorem update_keeps_identifier_witness:
  "db_map ex_store ''1'' = Some ex_doc1 \<and> d_id ex_doc1 = Some ''1'' \<and>
   (\<exists>d'. db_map (fst (update (spec_env []) ex_store (JObj []) ex_set_value None)) ''1'' = Some d' \<and>
         d_id d' = Some ''1'') \<and>
   (\<exists>d'. db_map (fst (updateById (spec_env []) ex_store [''1'', ''3''] ex_replacement None)) ''1'' = Some d' \<and>
         d_id d' = Some ''1'') \<and>
   db_map (fst (update (spec_env []) ex_store (JObj []) ex_set_value None)) ''1''
     = Some (ex_doc1\<lparr>d_fields := [(''type'', JStr ''normal''), (''value'', JNum 3)]\<rparr>) \<and>
   db_map (fst (updateById (spec_env []) ex_store [''1'', ''3''] ex_replacement None)) ''1''
     = Some (ex_replacement\<lparr>d_id := Some ''1''\<rparr>)"
proof -
  have a: "db_map ex_store ''1'' = Some ex_doc1" by (simp add: ex_store_def)
  have b: "d_id ex_doc1 = Some ''1''" by (simp add: ex_doc1_def)
  note th1 = update_keeps_identifier [OF a b, of "spec_env []" "JObj []" ex_set_value None
      "[''1'', ''3'']"]
  note th2 = update_keeps_identifier [OF a b, of "spec_env []" "JObj []" ex_replacement None
      "[''1'', ''3'']"]
  have u: "db_map (fst (update (spec_env []) ex_store (JObj []) ex_set_value None)) ''1''
     = Some (ex_doc1\<lparr>d_fields := [(''type'', JStr ''normal''), (''value'', JNum 3)]\<rparr>)"
    by (simp add: update_def new_doc_def ex_set_value_def spec_isValidUpdate_def
          spec_hasOperators_def spec_modify_def modifier_ok_def apply_modifier_def ex_simps)
  have v: "db_map (fst (updateById (spec_env []) ex_store [''1'', ''3''] ex_replacement None)) ''1''
     = Some (ex_replacement\<lparr>d_id := Some ''1''\<rparr>)"
    by (simp add: updateById_def new_doc_def ex_replacement_def spec_isValidUpdate_def
          spec_hasOperators_def ex_simps)
  show ?thesis using a b th1 th2 u v by blast
qed

section \<open>The index stays in bijection\<close>

lemma bijection_flush: "in_bijection (flush s)"
  by (simp add: in_bijection_def flush_def)

lemma bijection_index_put: "in_bijection s \<Longrightarrow> in_bijection (index_put d s)"
  by (auto simp: in_bijection_def index_put_def set_add_def)

lemma bijection_index_remove: "in_bijection s \<Longrightarrow> in_bijection (index_remove i s)"
  by (auto simp: in_bijection_def index_remove_def set_delete_def distinct_removeAll)

lemma bijection_map_upd:
  "in_bijection s \<Longrightarrow> db_map s i = Some d \<Longrightarrow> in_bijection (s\<lparr>db_map := (db_map s)(i \<mapsto> d')\<rparr>)"
  by (auto simp: in_bijection_def)

lemma live_match_entry: "live_match e s i q = Inr (d, b) \<Longrightarrow> db_map s i = Some d"
  by (auto simp: live_match_def split: option.splits if_splits)

lemma bijection_load_lines:
  "in_bijection s \<Longrightarrow> in_bijection (fst (load_lines e s raws c))"
  by (induction raws arbitrary: s c) (auto simp: bijection_index_put split: option.splits)

lemma fst_load:
  "fst (load e s fs) =
     (case db_file s of
        None \<Rightarrow> s
      | Some f \<Rightarrow>
          (case fs f of
             Some content \<Rightarrow> fst (load_lines e (flush s) (split_nl content) [])
           | None \<Rightarrow> s))"
  by (simp add: load_def split: option.splits prod.splits)

lemma bijection_load: "in_bijection s \<Longrightarrow> in_bijection (fst (load e s fs))"
  by (simp add: fst_load bijection_load_lines bijection_flush split: option.splits)

lemma bijection_persist_loop:
  "in_bijection s \<Longrightarrow> in_bijection (fst (persist_loop e s ids payload))"
  by (induction ids arbitrary: s payload) (auto simp: bijection_index_remove split: option.splits)

lemma fst_persist:
  "fst (persist e s fs) =
     (case db_file s of None \<Rightarrow> s | Some f \<Rightarrow> fst (persist_loop e s (db_list s) []))"
  by (simp add: persist_def split: option.splits prod.splits sum.splits)

lemma bijection_persist: "in_bijection s \<Longrightarrow> in_bijection (fst (persist e s fs))"
  by (simp add: fst_persist bijection_persist_loop split: option.splits)

lemma bijection_drop: "in_bijection (fst (drop_db e s fs))"
  by (simp add: drop_db_def Let_def bijection_flush bijection_persist)

lemma bijection_insert_loop:
  "in_bijection s \<Longrightarrow> in_bijection (fst (insert_loop e s uids n docs acc))"
  by (induction docs arbitrary: s n acc) (auto simp: bijection_index_put Let_def)

lemma bijection_insert: "in_bijection s \<Longrightarrow> in_bijection (fst (insert_db e s uids payload))"
  by (simp add: insert_db_def bijection_insert_loop)

lemma bijection_update_loop:
  "in_bijection s \<Longrightarrow> in_bijection (fst (update_loop e s ids q u p acc))"
proof (induction ids arbitrary: s acc)
  case Nil
  then show ?case by simp
next
  case (Cons i ids)
  show ?case
  proof (cases "live_match e s i q")
    case (Inl err)
    then show ?thesis using Cons.prems by simp
  next
    case (Inr db)
    obtain d b where db: "db = (d, b)" by (cases db)
    from Inr db have en: "db_map s i = Some d" by (simp add: live_match_entry)
    show ?thesis
      using Inr db Cons.prems Cons.IH bijection_map_upd [OF Cons.prems en]
      by (auto split: option.splits)
  qed
qed

lemma bijection_update: "in_bijection s \<Longrightarrow> in_bijection (fst (update e s q u p))"
  by (simp add: update_def bijection_update_loop)

lemma bijection_updateById_loop:
  "in_bijection s \<Longrightarrow> in_bijection (fst (updateById_loop e s ids u p acc))"
  by (induction ids arbitrary: s acc) (auto simp: bijection_map_upd split: option.splits)

lemma bijection_updateById: "in_bijection s \<Longrightarrow> in_bijection (fst (updateById e s ids u p))"
  by (simp add: updateById_def bijection_updateById_loop)

lemma bijection_delete_loop:
  "in_bijection s \<Longrightarrow> in_bijection (fst (delete_loop e s ids q n))"
proof (induction ids arbitrary: s n)
  case Nil
  then show ?case by simp
next
  case (Cons i ids)
  show ?case
  proof (cases "live_match e s i q")
    case (Inl err)
    then show ?thesis using Cons.prems by simp
  next
    case (Inr db)
    obtain d b where db: "db = (d, b)" by (cases db)
    from Inr db have en: "db_map s i = Some d" by (simp add: live_match_entry)
    show ?thesis
      using Inr db Cons.prems Cons.IH bijection_map_upd [OF Cons.prems en]
      by auto
  qed
qed

lemma bijection_delete: "in_bijection s \<Longrightarrow> in_bijection (fst (delete e s q))"
  by (simp add: delete_def bijection_delete_loop)

lemma bijection_deleteById_loop:
  "in_bijection s \<Longrightarrow> in_bijection (fst (deleteById_loop e s ids n))"
  by (induction ids arbitrary: s n) (auto simp: bijection_map_upd split: option.splits)

lemma bijection_deleteById: "in_bijection s \<Longrightarrow> in_bijection (fst (deleteById e s ids))"
  by (simp add: deleteById_def bijection_deleteById_loop)

lemma fst_constructor:
  "fst (constructor e opts fs) =
     (let s = \<lparr>db_strict = opt_strict opts, db_file = None, db_map = Map.empty, db_list = []\<rparr>
      in (case opt_root opts of
            None \<Rightarrow> s
          | Some r \<Rightarrow>
              if r = [] then s
              else
                (let s1 = s\<lparr>db_file := Some (path_resolve e r (db_name opts @ ''.txt''))\<rparr>
                 in if \<not> opt_disableAutoload opts then fst (load e s1 fs) else s1)))"
  by (simp add: constructor_def Let_def split: option.splits prod.splits sum.splits)

lemma bijection_constructor: "in_bijection (fst (constructor e opts fs))"
proof -
  have b: "in_bijection \<lparr>db_strict = x, db_file = f, db_map = Map.empty, db_list = []\<rparr>" for x f
    by (simp add: in_bijection_def)
  show ?thesis
    by (simp add: fst_constructor Let_def b bijection_load split: option.splits)
qed




section \<open>Insert stops at the first invalid document\<close>

lemma insert_loop_stops:
  "\<not> isValidDoc e bad False \<Longrightarrow> snd (insert_loop e s uids n pre acc) = Inr docs \<Longrightarrow>
   insert_loop e s uids n (pre @ bad # rest) acc =
     (fst (insert_loop e s uids n pre acc), Inl (InvalidDoc bad))"
  by (induction pre arbitrary: s n acc) (auto simp: Let_def split: if_splits)

text \<open>
  C1. \<open>insert\<close> validates each document inside the loop that also writes the index, and
  never reads \<open>strict\<close>. When the documents before an invalid one are inserted without
  error, the call on the whole batch throws for the invalid document under either policy, the
  earlier documents stay in the index, and the later ones are never looked at. So the batch is
  neither rejected as a whole (strict) nor inserted but for its invalid documents (lenient),
  which is what the documentation of \<open>insert\<close> promises.
\<close>

theorem insert_batch_not_atomic:
  assumes "\<not> isValidDoc e bad False" and "snd (insert_db e s uids pre) = Inr docs"
  shows "insert_db e s uids (pre @ bad # rest) = (fst (insert_db e s uids pre), Inl (InvalidDoc bad))"
  using assms by (simp add: insert_db_def insert_loop_stops)

theorem insert_batch_not_atomic_witness:
  "\<not> isValidDoc (spec_env []) ex_bad_doc False \<and>
   snd (insert_db (spec_env []) ex_empty_store ex_uids [ex_doc1]) = Inr [ex_doc1] \<and>
   insert_db (spec_env []) ex_empty_store ex_uids [ex_doc1, ex_bad_doc, ex_doc3]
     = (ex_empty_store\<lparr>db_list := [''1''], db_map := [''1'' \<mapsto> ex_doc1]\<rparr>, Inl (InvalidDoc ex_bad_doc)) \<and>
   insert_db (spec_env []) (ex_empty_store\<lparr>db_strict := True\<rparr>) ex_uids [ex_doc1, ex_bad_doc, ex_doc3]
     = (ex_empty_store\<lparr>db_strict := True, db_list := [''1''], db_map := [''1'' \<mapsto> ex_doc1]\<rparr>,
        Inl (InvalidDoc ex_bad_doc))"
proof -
  have bad: "\<not> isValidDoc (spec_env []) ex_bad_doc False"
    by (simp add: spec_isValidDoc_def ex_bad_doc_def ex_simps)
  have one: "insert_db (spec_env []) s0 ex_uids [ex_doc1]
      = (s0\<lparr>db_list := [''1''], db_map := [''1'' \<mapsto> ex_doc1]\<rparr>, Inr [ex_doc1])"
    if "db_list s0 = []" "db_map s0 = Map.empty" for s0
    using that
    by (simp add: insert_db_def index_put_def set_add_def id_key_def no_id_def
          spec_isValidDoc_def ex_simps)
  have e1: "db_list ex_empty_store = []" "db_map ex_empty_store = Map.empty"
    by (simp_all add: ex_empty_store_def)
  have e2: "db_list (ex_empty_store\<lparr>db_strict := True\<rparr>) = []"
    "db_map (ex_empty_store\<lparr>db_strict := True\<rparr>) = Map.empty"
    by (simp_all add: ex_empty_store_def)
  have s1: "snd (insert_db (spec_env []) ex_empty_store ex_uids [ex_doc1]) = Inr [ex_doc1]"
    by (simp add: one [OF e1])
  have s2: "snd (insert_db (spec_env []) (ex_empty_store\<lparr>db_strict := True\<rparr>) ex_uids [ex_doc1]) = Inr [ex_doc1]"
    by (simp add: one [OF e2])
  from insert_batch_not_atomic [OF bad s1, of "[ex_doc3]"]
  have a: "insert_db (spec_env []) ex_empty_store ex_uids [ex_doc1, ex_bad_doc, ex_doc3]
     = (ex_empty_store\<lparr>db_list := [''1''], db_map := [''1'' \<mapsto> ex_doc1]\<rparr>, Inl (InvalidDoc ex_bad_doc))"
    by (simp add: one [OF e1])
  from insert_batch_not_atomic [OF bad s2, of "[ex_doc3]"]
  have b: "insert_db (spec_env []) (ex_empty_store\<lparr>db_strict := True\<rparr>) ex_uids [ex_doc1, ex_bad_doc, ex_doc3]
     = (ex_empty_store\<lparr>db_strict := True, db_list := [''1''], db_map := [''1'' \<mapsto> ex_doc1]\<rparr>,
        Inl (InvalidDoc ex_bad_doc))"
    by (simp add: one [OF e2])
  show ?thesis using bad s1 a b by blast
qed

section \<open>Loading\<close>

lemma corrupt_iff: "corrupt e raw \<longleftrightarrow> raw \<noteq> [] \<and> load_try e raw = None"
  by (auto simp: corrupt_def load_try_def split: option.splits)

lemma db_strict_index_put [simp]: "db_strict (index_put d s) = db_strict s"
  by (simp add: index_put_def)

lemma restored_Nil [simp]: "restored e [] = []"
  by (simp add: restored_def)

lemma restored_Cons:
  "restored e (raw # raws) =
     (if raw = [] then [] else (case load_try e raw of None \<Rightarrow> [] | Some d \<Rightarrow> [d])) @ restored e raws"
  by (simp add: restored_def)

lemma restored_append [simp]: "restored e (xs @ ys) = restored e xs @ restored e ys"
  by (simp add: restored_def)

lemma load_lines_closed:
  "db_strict s \<longrightarrow> (\<forall>raw\<in>set raws. \<not> corrupt e raw) \<Longrightarrow>
   load_lines e s raws c = (fold index_put (restored e raws) s, Inr (c @ filter (corrupt e) raws))"
proof (induction raws arbitrary: s c)
  case Nil
  show ?case by simp
next
  case (Cons raw raws)
  have rest: "db_strict s' \<longrightarrow> (\<forall>r\<in>set raws. \<not> corrupt e r)" if "db_strict s' = db_strict s" for s' :: leafdb
    using Cons.prems that by simp
  show ?case
  proof (cases "raw = []")
    case True
    then show ?thesis using Cons.IH [OF rest, of s c]
      by (simp add: restored_Cons corrupt_iff)
  next
    case False
    show ?thesis
    proof (cases "load_try e raw")
      case None
      with False have c: "corrupt e raw" by (simp add: corrupt_iff)
      with Cons.prems have ns: "\<not> db_strict s" by auto
      show ?thesis using False None c ns Cons.IH [OF rest, of s "c @ [raw]"]
        by (simp add: restored_Cons)
    next
      case (Some d)
      with False have c: "\<not> corrupt e raw" by (simp add: corrupt_iff)
      show ?thesis using False Some c Cons.IH [OF rest, of "index_put d s" c]
        by (simp add: restored_Cons)
    qed
  qed
qed

lemma load_lines_strict_fail:
  "db_strict s \<Longrightarrow> \<forall>raw\<in>set good. \<not> corrupt e raw \<Longrightarrow> corrupt e bad \<Longrightarrow>
   load_lines e s (good @ bad # rest) c
     = (fold index_put (restored e good) s, Inl (CorruptLine bad))"
proof (induction good arbitrary: s)
  case Nil
  then show ?case by (simp add: corrupt_iff)
next
  case (Cons raw good)
  show ?case
  proof (cases "raw = []")
    case True
    then show ?thesis using Cons by (simp add: restored_Cons)
  next
    case False
    with Cons.prems obtain d where d: "load_try e raw = Some d"
      by (auto simp: corrupt_iff)
    have "db_strict (index_put d s)" using Cons.prems by simp
    from Cons.IH [OF this] Cons.prems show ?thesis using False d
      by (simp add: restored_Cons)
  qed
qed

lemma load_clean:
  assumes "db_file s = Some f" and "fs f = Some content"
    and "\<forall>raw\<in>set (split_nl content). \<not> corrupt e raw"
  shows "load e s fs = (fold index_put (restored e (split_nl content)) (flush s), fs, Inr [])"
proof -
  from assms(3) have "filter (corrupt e) (split_nl content) = []" by (simp add: filter_empty_conv)
  then show ?thesis
    using assms load_lines_closed [of "flush s" "split_nl content" e "[]"]
    by (simp add: load_def)
qed


lemmas json_simps = stringify_doc_def doc_object_def quote_def escape_char_def dquote_def
  backslash_def newline_def parse_known_def load_try_def spec_isValidDoc_def

lemma stringify_ex_doc1: "stringify_doc ex_doc1 = Some ex_line1"
  by (simp add: ex_line1_def ex_doc1_def json_simps)

lemma ex_line1_nonempty: "ex_line1 \<noteq> []"
  by (simp add: ex_line1_def)

lemma split_ex_content: "split_nl ex_content = [ex_line1, ''{oops'']"
  by (simp add: ex_content_def ex_line1_def json_simps)

lemma load_try_ex_line1: "load_try (spec_env [ex_doc1]) ex_line1 = Some ex_doc1"
  by (simp add: load_try_def parse_known_def stringify_ex_doc1 spec_env_def)
     (simp add: spec_isValidDoc_def ex_simps)

lemma load_try_oops: "load_try (spec_env [ex_doc1]) ''{oops'' = None"
  by (simp add: load_try_def parse_known_def stringify_ex_doc1 spec_env_def)
     (simp add: ex_line1_def json_simps)


section \<open>Loading a repeated identifier\<close>

lemma bijection_fold_index_put: "in_bijection s \<Longrightarrow> in_bijection (fold index_put ds s)"
  by (induction ds arbitrary: s) (simp_all add: bijection_index_put)

lemma db_map_index_put: "db_map (index_put d s) k = (if k = id_key d then Some d else db_map s k)"
  by (simp add: index_put_def)

lemma fold_index_put_other:
  "\<forall>x\<in>set es. id_key x \<noteq> k \<Longrightarrow> db_map (fold index_put es s) k = db_map s k"
  by (induction es arbitrary: s) (auto simp: db_map_index_put)

lemma fold_index_put_last:
  "\<forall>x\<in>set es. id_key x \<noteq> id_key d \<Longrightarrow>
   db_map (fold index_put (ds @ d # es) s) (id_key d) = Some d"
  by (simp add: fold_index_put_other db_map_index_put)

lemma distinct_count_list:
  "distinct xs \<Longrightarrow> count_list xs x = (if x \<in> set xs then 1 else 0)"
  by (induction xs) auto

lemma bijection_count:
  "in_bijection s \<Longrightarrow> db_map s k = Some d \<Longrightarrow> count_list (db_list s) k = 1"
  by (auto simp: in_bijection_def distinct_count_list)

text \<open>
  C10. \<open>load\<close> writes each restored document with \<open>list.add\<close> and an assignment to
  \<open>map\<close>, without looking for the identifier first. When two non-empty, valid lines of the
  file carry the same identifier and no later line does, the load reports no error (under the
  strict policy provided no other line is corrupt) and neither of the two lines as corrupt,
  the identifier is in the sequence exactly once, and the mapping holds the document of the
  later line.
\<close>

theorem load_last_line_wins:
  assumes f: "db_file s = Some f" "fs f = Some content"
    and lines: "split_nl content = xs @ l1 # ys @ l2 # zs"
    and l1: "l1 \<noteq> []" "load_try e l1 = Some d1" "d_id d1 = Some i"
    and l2: "l2 \<noteq> []" "load_try e l2 = Some d2" "d_id d2 = Some i"
    and last: "\<forall>d\<in>set (restored e zs). id_key d \<noteq> i"
    and others: "db_strict s \<longrightarrow> (\<forall>l\<in>set (xs @ ys @ zs). \<not> corrupt e l)"
  shows "(\<exists>c. snd (snd (load e s fs)) = Inr c \<and> l1 \<notin> set c \<and> l2 \<notin> set c) \<and>
         count_list (db_list (fst (load e s fs))) i = 1 \<and>
         db_map (fst (load e s fs)) i = Some d2"
proof -
  let ?raws = "split_nl content"
  have g1: "\<not> corrupt e l1" and g2: "\<not> corrupt e l2"
    using l1 l2 by (simp_all add: corrupt_iff)
  have ok: "db_strict (flush s) \<longrightarrow> (\<forall>raw\<in>set ?raws. \<not> corrupt e raw)"
    using others g1 g2 by (auto simp: lines flush_def)
  have ld: "load e s fs = (fold index_put (restored e ?raws) (flush s), fs,
                           Inr (filter (corrupt e) ?raws))"
    using f load_lines_closed [OF ok, of "[]"] by (simp add: load_def)
  have r: "restored e ?raws = (restored e xs @ d1 # restored e ys) @ d2 # restored e zs"
    using l1 l2 by (simp add: lines restored_Cons)
  have k: "id_key d2 = i" "id_key d1 = i" using l1 l2 by (simp_all add: id_key_def)
  have m: "db_map (fst (load e s fs)) i = Some d2"
    unfolding ld r using fold_index_put_last [of "restored e zs" d2] last k by simp
  have "in_bijection (fst (load e s fs))"
    unfolding ld by (simp add: bijection_fold_index_put bijection_flush)
  from bijection_count [OF this m] have c: "count_list (db_list (fst (load e s fs))) i = 1" .
  have "l1 \<notin> set (filter (corrupt e) ?raws)" "l2 \<notin> set (filter (corrupt e) ?raws)"
    using g1 g2 by simp_all
  then have e: "\<exists>c. snd (snd (load e s fs)) = Inr c \<and> l1 \<notin> set c \<and> l2 \<notin> set c"
    by (simp add: ld)
  show ?thesis using e c m by blast
qed

lemma stringify_ex_doc1_later: "stringify_doc ex_doc1_later = Some ex_line1_later"
  by (simp add: ex_line1_later_def ex_doc1_later_def json_simps)

lemma ex_lines_differ: "ex_line1 \<noteq> ex_line1_later"
  by (simp add: ex_line1_def ex_line1_later_def json_simps)

lemma split_two_lines: "split_nl (ex_line1 @ newline # ex_line1_later) = [ex_line1, ex_line1_later]"
  by (simp add: ex_line1_later_def ex_line1_def json_simps)

lemma load_try_two:
  "load_try (spec_env [ex_doc1, ex_doc1_later]) ex_line1 = Some ex_doc1"
  "load_try (spec_env [ex_doc1, ex_doc1_later]) ex_line1_later = Some ex_doc1_later"
  using ex_lines_differ
  by (simp_all add: load_try_def parse_known_def spec_env_def stringify_ex_doc1
        stringify_ex_doc1_later)
     (simp_all add: spec_isValidDoc_def spec_isId_def ex_doc1_def ex_doc1_later_def
        legal_key_def starts_with_dollar_def)

theorem load_last_line_wins_witness:
  "db_file ex_store = Some ''data/leafdb.txt'' \<and>
   [''data/leafdb.txt'' \<mapsto> ex_line1 @ newline # ex_line1_later] ''data/leafdb.txt''
     = Some (ex_line1 @ newline # ex_line1_later) \<and>
   split_nl (ex_line1 @ newline # ex_line1_later) = [ex_line1, ex_line1_later] \<and>
   ex_line1 \<noteq> [] \<and> load_try (spec_env [ex_doc1, ex_doc1_later]) ex_line1 = Some ex_doc1 \<and>
   d_id ex_doc1 = Some ''1'' \<and>
   ex_line1_later \<noteq> [] \<and>
   load_try (spec_env [ex_doc1, ex_doc1_later]) ex_line1_later = Some ex_doc1_later \<and>
   d_id ex_doc1_later = Some ''1'' \<and>
   load (spec_env [ex_doc1, ex_doc1_later]) ex_store
     [''data/leafdb.txt'' \<mapsto> ex_line1 @ newline # ex_line1_later]
     = (ex_store\<lparr>db_map := [''1'' \<mapsto> ex_doc1_later], db_list := [''1'']\<rparr>,
        [''data/leafdb.txt'' \<mapsto> ex_line1 @ newline # ex_line1_later], Inr []) \<and>
   snd (snd (load (spec_env [ex_doc1, ex_doc1_later]) (ex_store\<lparr>db_strict := True\<rparr>)
     [''data/leafdb.txt'' \<mapsto> ex_line1 @ newline # ex_line1_later])) = Inr [] \<and>
   count_list (db_list (fst (load (spec_env [ex_doc1, ex_doc1_later]) ex_store
     [''data/leafdb.txt'' \<mapsto> ex_line1 @ newline # ex_line1_later]))) ''1'' = 1 \<and>
   db_map (fst (load (spec_env [ex_doc1, ex_doc1_later]) ex_store
     [''data/leafdb.txt'' \<mapsto> ex_line1 @ newline # ex_line1_later])) ''1'' = Some ex_doc1_later"
proof -
  let ?e = "spec_env [ex_doc1, ex_doc1_later]"
  let ?c = "ex_line1 @ newline # ex_line1_later"
  let ?fs = "[''data/leafdb.txt'' \<mapsto> ?c]"
  have f: "db_file ex_store = Some ''data/leafdb.txt''" by (simp add: ex_store_def)
  have c: "?fs ''data/leafdb.txt'' = Some ?c" by simp
  have sp: "split_nl ?c = [] @ ex_line1 # [] @ ex_line1_later # []"
    by (simp add: split_two_lines)
  have n1: "ex_line1 \<noteq> []" by (rule ex_line1_nonempty)
  have n2: "ex_line1_later \<noteq> []" by (simp add: ex_line1_later_def)
  have i1: "d_id ex_doc1 = Some ''1''" by (simp add: ex_doc1_def)
  have i2: "d_id ex_doc1_later = Some ''1''" by (simp add: ex_doc1_later_def)
  have la: "\<forall>d\<in>set (restored ?e []). id_key d \<noteq> ''1''" by simp
  have ot: "db_strict ex_store \<longrightarrow> (\<forall>l\<in>set ([] @ [] @ []). \<not> corrupt ?e l)" by simp
  note th = load_last_line_wins [where s = ex_store and fs = ?fs and f = "''data/leafdb.txt''"
      and content = ?c and e = ?e, OF f c sp n1 load_try_two(1) i1 n2 load_try_two(2) i2 la ot]
  have r: "restored ?e [ex_line1, ex_line1_later] = [ex_doc1, ex_doc1_later]"
    by (simp add: restored_def load_try_two n1 n2)
  have nc: "\<forall>raw\<in>set (split_nl ?c). \<not> corrupt ?e raw"
    by (simp add: split_two_lines corrupt_iff load_try_two)
  have p: "index_put ex_doc1_later (index_put ex_doc1 (flush s0))
             = s0\<lparr>db_map := [''1'' \<mapsto> ex_doc1_later], db_list := [''1'']\<rparr>" for s0
    by (simp add: index_put_def flush_def set_add_def id_key_def ex_doc1_def ex_doc1_later_def)
  from load_clean [where s = ex_store and fs = ?fs and f = "''data/leafdb.txt''"
      and content = ?c and e = ?e, OF f c nc]
  have l: "load ?e ex_store ?fs
     = (ex_store\<lparr>db_map := [''1'' \<mapsto> ex_doc1_later], db_list := [''1'']\<rparr>, ?fs, Inr [])"
    by (simp add: split_two_lines r p)
  have f': "db_file (ex_store\<lparr>db_strict := True\<rparr>) = Some ''data/leafdb.txt''"
    by (simp add: ex_store_def)
  from load_clean [where s = "ex_store\<lparr>db_strict := True\<rparr>" and fs = ?fs
      and f = "''data/leafdb.txt''" and content = ?c and e = ?e, OF f' c nc]
  have l': "snd (snd (load ?e (ex_store\<lparr>db_strict := True\<rparr>) ?fs)) = Inr []"
    by simp
  show ?thesis using f c split_two_lines n1 n2 i1 i2 load_try_two th l l' by blast
qed

section \<open>Persisting\<close>

lemma persist_fails_iff: "persist_fails e s i \<longleftrightarrow> persist_try e s i = None"
  by (auto simp: persist_fails_def persist_try_def split: option.splits)

lemma persist_lines_pushed: "persist_lines e s = concat (map (pushed e s) (db_list s))"
  unfolding persist_lines_def pushed_def persist_try_def
  by (rule arg_cong [where f = concat], rule map_cong) (auto split: option.splits)

lemma persist_try_index_remove:
  "persist_try e (index_remove j s) i = (if i = j then None else persist_try e s i)"
  by (simp add: persist_try_def index_remove_def)

lemma db_strict_index_remove [simp]: "db_strict (index_remove j s) = db_strict s"
  by (simp add: index_remove_def)

lemma remove_where_sel [simp]:
  "db_list (remove_where P s) = filter (\<lambda>i. \<not> P i) (db_list s)"
  "db_map (remove_where P s) = (\<lambda>i. if P i then None else db_map s i)"
  "db_strict (remove_where P s) = db_strict s"
  "db_file (remove_where P s) = db_file s"
  "leafdb.more (remove_where P s) = leafdb.more s"
  by (simp_all add: remove_where_def)

lemma index_remove_sel [simp]:
  "db_list (index_remove i s) = removeAll i (db_list s)"
  "db_map (index_remove i s) = (db_map s)(i := None)"
  "db_file (index_remove i s) = db_file s"
  "leafdb.more (index_remove i s) = leafdb.more s"
  by (simp_all add: index_remove_def set_delete_def)

lemma remove_where_step:
  "persist_try e s i = None \<Longrightarrow>
   remove_where (\<lambda>j. j \<in> set ids \<and> persist_try e (index_remove i s) j = None) (index_remove i s)
     = remove_where (\<lambda>j. j \<in> set (i # ids) \<and> persist_try e s j = None) s"
  by (rule leafdb.equality)
     (auto simp: persist_try_index_remove removeAll_filter_not_eq fun_eq_iff intro!: filter_cong)

lemma remove_where_skip:
  "persist_try e s i \<noteq> None \<Longrightarrow>
   remove_where (\<lambda>j. j \<in> set ids \<and> persist_try e s j = None) s
     = remove_where (\<lambda>j. j \<in> set (i # ids) \<and> persist_try e s j = None) s"
  by (rule leafdb.equality) (auto simp: fun_eq_iff intro!: filter_cong)

lemma pushed_index_remove:
  "persist_try e s i = None \<Longrightarrow> pushed e (index_remove i s) = pushed e s"
  by (rule ext) (simp add: pushed_def persist_try_index_remove)

lemma persist_loop_lenient:
  "\<not> db_strict s \<Longrightarrow>
   persist_loop e s ids p =
     (remove_where (\<lambda>i. i \<in> set ids \<and> persist_try e s i = None) s,
      Inr (p @ concat (map (pushed e s) ids)))"
proof (induction ids arbitrary: s p)
  case Nil
  show ?case by (simp add: remove_where_def)
next
  case (Cons i ids)
  show ?case
  proof (cases "persist_try e s i")
    case None
    have ns: "\<not> db_strict (index_remove i s)" using Cons.prems by simp
    show ?thesis
      using None Cons.prems Cons.IH [OF ns, of p]
      by (simp add: remove_where_step [OF None] pushed_index_remove [OF None])
         (simp add: pushed_def)
  next
    case (Some out)
    then have "persist_try e s i \<noteq> None" by simp
    note same = remove_where_skip [OF this, of ids]
    show ?thesis
      using Some Cons.prems Cons.IH [OF Cons.prems, of "p @ out"]
      by (simp add: same) (simp add: pushed_def)
  qed
qed

lemma persist_loop_strict_fail:
  "db_strict s \<Longrightarrow> \<forall>i\<in>set good. persist_try e s i \<noteq> None \<Longrightarrow> persist_try e s bad = None \<Longrightarrow>
   persist_loop e s (good @ bad # rest) p = (index_remove bad s, Inl (PersistFailure bad))"
  by (induction good arbitrary: p) auto

lemma persist_loop_ok:
  "\<forall>i\<in>set ids. persist_try e s i \<noteq> None \<Longrightarrow>
   persist_loop e s ids p = (s, Inr (p @ concat (map (pushed e s) ids)))"
  by (induction ids arbitrary: p) (auto simp: pushed_def)

lemma persist_loop_keeps:
  "persist_try e s k \<noteq> None \<Longrightarrow>
   db_map (fst (persist_loop e s ids p)) k = db_map s k \<and>
   (k \<in> set (db_list s) \<longrightarrow> k \<in> set (db_list (fst (persist_loop e s ids p))))"
proof (induction ids arbitrary: s p)
  case Nil
  show ?case by simp
next
  case (Cons i ids)
  show ?case
  proof (cases "persist_try e s i")
    case None
    with Cons.prems have ne: "k \<noteq> i" by auto
    then have "persist_try e (index_remove i s) k \<noteq> None"
      using Cons.prems by (simp add: persist_try_index_remove)
    from Cons.IH [OF this, of p] show ?thesis using None ne by simp
  next
    case (Some out)
    then show ?thesis using Cons.IH [OF Cons.prems, of "p @ out"] by simp
  qed
qed

lemma tombstoned_persist_try: "tombstoned s i \<Longrightarrow> persist_try e s i = Some []"
  by (auto simp: tombstoned_def persist_try_def split: option.splits)

text \<open>
  C2, as the code has it. With a backing file, under the lenient policy, \<open>persist\<close> takes
  out of the sequence and of the mapping every identifier it fails on (a live document that
  does not serialize), and writes the serialized lines of the live documents that do
  serialize, in stored order, joined by newlines. Under the strict policy the first failure
  is raised: that one identifier is taken out and nothing is written. Without failures the
  index is unchanged. Under both policies a tombstoned document is only left out of the
  written lines: its entry in the mapping and its place in the sequence stay.
\<close>

theorem persist_compacts_failures:
  assumes f: "db_file s = Some f"
  shows "(\<not> db_strict s \<longrightarrow>
            persist e s fs
              = (remove_where (\<lambda>i. i \<in> set (db_list s) \<and> persist_fails e s i) s,
                 fs(f \<mapsto> join_nl (persist_lines e s)), Inr ())) \<and>
         (db_strict s \<longrightarrow>
            (\<forall>good bad rest.
               db_list s = good @ bad # rest \<and> (\<forall>i\<in>set good. \<not> persist_fails e s i) \<and>
               persist_fails e s bad \<longrightarrow>
               persist e s fs = (index_remove bad s, fs, Inl (PersistFailure bad)))) \<and>
         ((\<forall>i\<in>set (db_list s). \<not> persist_fails e s i) \<longrightarrow>
            persist e s fs = (s, fs(f \<mapsto> join_nl (persist_lines e s)), Inr ())) \<and>
         (\<forall>i. tombstoned s i \<longrightarrow>
              db_map (fst (persist e s fs)) i = db_map s i \<and>
              (i \<in> set (db_list s) \<longrightarrow> i \<in> set (db_list (fst (persist e s fs)))))"
proof -
  have a: "persist e s fs
              = (remove_where (\<lambda>i. i \<in> set (db_list s) \<and> persist_fails e s i) s,
                 fs(f \<mapsto> join_nl (persist_lines e s)), Inr ())" if "\<not> db_strict s"
    using f persist_loop_lenient [OF that, of e "db_list s" "[]"]
    by (simp add: persist_def persist_fails_iff persist_lines_pushed)
  have b: "persist e s fs = (index_remove bad s, fs, Inl (PersistFailure bad))"
    if "db_strict s" "db_list s = good @ bad # rest" "\<forall>i\<in>set good. \<not> persist_fails e s i"
      "persist_fails e s bad" for good bad rest
    using f that persist_loop_strict_fail [of s good e bad rest "[]"]
    by (simp add: persist_def persist_fails_iff)
  have c: "persist e s fs = (s, fs(f \<mapsto> join_nl (persist_lines e s)), Inr ())"
    if "\<forall>i\<in>set (db_list s). \<not> persist_fails e s i"
    using f that persist_loop_ok [of "db_list s" e s "[]"]
    by (simp add: persist_def persist_fails_iff persist_lines_pushed)
  have d: "db_map (fst (persist e s fs)) i = db_map s i \<and>
           (i \<in> set (db_list s) \<longrightarrow> i \<in> set (db_list (fst (persist e s fs))))"
    if "tombstoned s i" for i
    using f persist_loop_keeps [of e s i "db_list s" "[]"] tombstoned_persist_try [OF that, of e]
    by (simp add: fst_persist)
  show ?thesis using a b c d by blast
qed

lemma stringify_ex_doc3: "stringify_doc ex_doc3 = Some ex_line3"
  by (simp add: ex_line3_def ex_doc3_def json_simps)

lemma stringify_ex_doc4: "stringify_doc ex_doc4 = None"
  by (simp add: ex_doc4_def json_simps)

text \<open>
  C2 as stated fails: the store of the three documents with the second one tombstoned, as
  \<open>delete\<close> leaves it. After \<open>persist\<close> the tombstoned document is still in the
  sequence and in the mapping; only the written file leaves it out.
\<close>

theorem persist_keeps_tombstones_counterexample:
  "tombstoned ex_deleted_store ''2'' \<and>
   snd (snd (persist (spec_env []) ex_deleted_store Map.empty)) = Inr () \<and>
   db_list (fst (persist (spec_env []) ex_deleted_store Map.empty)) = [''1'', ''2'', ''3''] \<and>
   db_map (fst (persist (spec_env []) ex_deleted_store Map.empty)) ''2'' = Some (tombstone ex_doc2) \<and>
   fst (snd (persist (spec_env []) ex_deleted_store Map.empty)) ''data/leafdb.txt''
     = Some (ex_line1 @ newline # ex_line3)"
  by (simp add: persist_def persist_try_def tombstoned_def ex_deleted_store_def ex_store_def
        spec_env_def stringify_ex_doc1 stringify_ex_doc3)
     (simp add: tombstone_def is_deleted_def ex_doc1_def ex_doc3_def)

theorem persist_compacts_failures_witness:
  "db_file ex_mixed_store = Some ''data/leafdb.txt'' \<and> \<not> db_strict ex_mixed_store \<and>
   \<not> persist_fails (spec_env []) ex_mixed_store ''1'' \<and>
   \<not> persist_fails (spec_env []) ex_mixed_store ''2'' \<and>
   persist_fails (spec_env []) ex_mixed_store ''4'' \<and>
   tombstoned ex_mixed_store ''2'' \<and>
   persist_lines (spec_env []) ex_mixed_store = [ex_line1] \<and>
   persist (spec_env []) ex_mixed_store Map.empty
     = (remove_where (\<lambda>i. i \<in> set (db_list ex_mixed_store) \<and>
                           persist_fails (spec_env []) ex_mixed_store i) ex_mixed_store,
        [''data/leafdb.txt'' \<mapsto> ex_line1], Inr ()) \<and>
   db_list (fst (persist (spec_env []) ex_mixed_store Map.empty)) = [''1'', ''2''] \<and>
   db_map (fst (persist (spec_env []) ex_mixed_store Map.empty)) ''4'' = None \<and>
   db_map (fst (persist (spec_env []) ex_mixed_store Map.empty)) ''2'' = Some (tombstone ex_doc2) \<and>
   persist (spec_env []) (ex_mixed_store\<lparr>db_strict := True\<rparr>) Map.empty
     = (index_remove ''4'' (ex_mixed_store\<lparr>db_strict := True\<rparr>), Map.empty,
        Inl (PersistFailure ''4''))"
proof -
  let ?e = "spec_env []"
  let ?t = "ex_mixed_store\<lparr>db_strict := True\<rparr>"
  have f: "db_file ex_mixed_store = Some ''data/leafdb.txt''" and ns: "\<not> db_strict ex_mixed_store"
    by (simp_all add: ex_mixed_store_def)
  have f': "db_file ?t = Some ''data/leafdb.txt''" and st: "db_strict ?t"
    by (simp_all add: ex_mixed_store_def)
  have pf: "\<not> persist_fails ?e s0 ''1''" "\<not> persist_fails ?e s0 ''2''" "persist_fails ?e s0 ''4''"
    if "db_map s0 = db_map ex_mixed_store" for s0
    using that
    by (simp_all add: persist_fails_def ex_mixed_store_def spec_env_def stringify_ex_doc1
          stringify_ex_doc4 tombstone_def is_deleted_def)
       (simp add: ex_doc1_def ex_doc4_def)+
  have t: "tombstoned ex_mixed_store ''2''"
    by (simp add: tombstoned_def ex_mixed_store_def tombstone_def is_deleted_def)
  have pl: "persist_lines ?e ex_mixed_store = [ex_line1]"
    by (simp add: persist_lines_def ex_mixed_store_def spec_env_def stringify_ex_doc1
          stringify_ex_doc4 tombstone_def is_deleted_def)
       (simp add: ex_doc1_def ex_doc4_def)
  note th = persist_compacts_failures [where s = ex_mixed_store and f = "''data/leafdb.txt''"
      and fs = Map.empty and e = ?e, OF f]
  from th ns have p: "persist ?e ex_mixed_store Map.empty
     = (remove_where (\<lambda>i. i \<in> set (db_list ex_mixed_store) \<and>
                           persist_fails ?e ex_mixed_store i) ex_mixed_store,
        [''data/leafdb.txt'' \<mapsto> ex_line1], Inr ())"
    by (simp add: pl)
  have l: "db_list (fst (persist ?e ex_mixed_store Map.empty)) = [''1'', ''2'']"
    unfolding p using pf [of ex_mixed_store] by (simp add: ex_mixed_store_def)
  have m4: "db_map (fst (persist ?e ex_mixed_store Map.empty)) ''4'' = None"
    unfolding p using pf [of ex_mixed_store] by (simp add: ex_mixed_store_def)
  have m2: "db_map (fst (persist ?e ex_mixed_store Map.empty)) ''2'' = Some (tombstone ex_doc2)"
    unfolding p using pf [of ex_mixed_store] by (simp add: ex_mixed_store_def)
  note th' = persist_compacts_failures [where s = ?t and f = "''data/leafdb.txt''"
      and fs = Map.empty and e = ?e, OF f']
  have sp: "db_list ?t = [''1'', ''2''] @ ''4'' # [] \<and>
            (\<forall>i\<in>set [''1'', ''2'']. \<not> persist_fails ?e ?t i) \<and> persist_fails ?e ?t ''4''"
    using pf [of ?t] by (simp add: ex_mixed_store_def)
  from th' [THEN conjunct2, THEN conjunct1, rule_format, OF st sp]
  have s: "persist ?e ?t Map.empty = (index_remove ''4'' ?t, Map.empty, Inl (PersistFailure ''4''))" .
  show ?thesis using f ns pf [of ex_mixed_store] t pl p l m4 m2 s by blast
qed

section \<open>Persist, then load\<close>

lemma split_nl_line: "newline \<notin> set l \<Longrightarrow> split_nl (l @ newline # r) = l # split_nl r"
  by (induction l) auto

lemma split_nl_last: "newline \<notin> set l \<Longrightarrow> split_nl l = [l]"
  by (induction l) auto

lemma split_join:
  "\<forall>l\<in>set ls. newline \<notin> set l \<Longrightarrow> ls \<noteq> [] \<Longrightarrow> split_nl (join_nl ls) = ls"
  by (induction ls rule: join_nl.induct) (simp_all add: split_nl_line split_nl_last)

lemma live_docs_Cons:
  "live_docs s (i # ids) =
     (case db_map s i of None \<Rightarrow> [] | Some d \<Rightarrow> if is_deleted d then [] else [d]) @ live_docs s ids"
  by (simp add: live_docs_def)

lemma live_docs_Nil [simp]: "live_docs s [] = []"
  by (simp add: live_docs_def)

lemma roundtrips_load_try:
  "roundtrips e i d \<Longrightarrow>
   \<exists>l. json_stringify e d = Some l \<and> l \<noteq> [] \<and> newline \<notin> set l \<and> load_try e l = Some d"
  by (auto simp: roundtrips_def load_try_def split: option.splits)

lemma pushed_lines:
  assumes "\<forall>i\<in>set ids. \<exists>d. db_map s i = Some d \<and> (\<not> is_deleted d \<longrightarrow> roundtrips e i d)"
  shows "(\<forall>i\<in>set ids. persist_try e s i \<noteq> None) \<and>
         (\<forall>l\<in>set (concat (map (pushed e s) ids)). l \<noteq> [] \<and> newline \<notin> set l \<and> \<not> corrupt e l) \<and>
         restored e (concat (map (pushed e s) ids)) = live_docs s ids"
  using assms
proof (induction ids)
  case Nil
  show ?case by simp
next
  case (Cons i ids)
  from Cons.prems obtain d where d: "db_map s i = Some d" "\<not> is_deleted d \<longrightarrow> roundtrips e i d"
    by auto
  from Cons.prems have ih: "(\<forall>i\<in>set ids. persist_try e s i \<noteq> None) \<and>
         (\<forall>l\<in>set (concat (map (pushed e s) ids)). l \<noteq> [] \<and> newline \<notin> set l \<and> \<not> corrupt e l) \<and>
         restored e (concat (map (pushed e s) ids)) = live_docs s ids"
    by (intro Cons.IH) simp
  show ?case
  proof (cases "is_deleted d")
    case True
    then have pt: "persist_try e s i = Some []" using d by (simp add: persist_try_def)
    then have "pushed e s i = []" by (simp add: pushed_def)
    then show ?thesis using ih d True pt by (simp add: live_docs_Cons)
  next
    case False
    with d roundtrips_load_try obtain l where
      l: "json_stringify e d = Some l" "l \<noteq> []" "newline \<notin> set l" "load_try e l = Some d"
      by blast
    have pt: "persist_try e s i = Some [l]" using d False l by (simp add: persist_try_def)
    then have "pushed e s i = [l]" by (simp add: pushed_def)
    then show ?thesis using ih d False l pt
      by (auto simp: live_docs_Cons restored_Cons corrupt_iff)
  qed
qed

lemma index_put_sel [simp]:
  "db_list (index_put d s) = set_add (id_key d) (db_list s)"
  "db_map (index_put d s) = (db_map s)(id_key d \<mapsto> d)"
  "db_file (index_put d s) = db_file s"
  "leafdb.more (index_put d s) = leafdb.more s"
  by (simp_all add: index_put_def)

lemma fold_index_put_sel [simp]:
  "db_strict (fold index_put ds s) = db_strict s"
  "db_file (fold index_put ds s) = db_file s"
  "leafdb.more (fold index_put ds s) = leafdb.more s"
  by (induction ds arbitrary: s) simp_all

lemma fold_index_put_live_docs:
  assumes "distinct ids"
    and "set (db_list s0) \<inter> set ids = {}"
    and "\<forall>i\<in>set ids. \<forall>d. db_map s i = Some d \<longrightarrow> \<not> is_deleted d \<longrightarrow> d_id d = Some i"
  shows "db_list (fold index_put (live_docs s ids) s0) = db_list s0 @ filter (live s) ids \<and>
         db_map (fold index_put (live_docs s ids) s0)
           = (\<lambda>k. if k \<in> set ids \<and> live s k then db_map s k else db_map s0 k)"
  using assms
proof (induction ids arbitrary: s0)
  case Nil
  show ?case by simp
next
  case (Cons i ids)
  show ?case
  proof (cases "live s i")
    case True
    then obtain d where d: "db_map s i = Some d" "\<not> is_deleted d"
      by (auto simp: live_def split: option.splits)
    with Cons.prems have k: "id_key d = i" by (simp add: id_key_def)
    have ni: "i \<notin> set (db_list s0)" using Cons.prems by auto
    have l1: "db_list (index_put d s0) = db_list s0 @ [i]"
      using ni by (simp add: k set_add_def)
    have dj: "set (db_list (index_put d s0)) \<inter> set ids = {}"
      unfolding l1 using Cons.prems by auto
    have di: "distinct ids" using Cons.prems by simp
    have ky: "\<forall>i\<in>set ids. \<forall>d. db_map s i = Some d \<longrightarrow> \<not> is_deleted d \<longrightarrow> d_id d = Some i"
      using Cons.prems by simp
    note ih = Cons.IH [OF di dj ky]
    have cs: "live_docs s (i # ids) = d # live_docs s ids"
      using d by (simp add: live_docs_Cons)
    have a: "db_list (fold index_put (live_docs s (i # ids)) s0)
               = db_list s0 @ filter (live s) (i # ids)"
      unfolding cs using ih True by (simp add: l1 del: index_put_sel)
    have b: "db_map (fold index_put (live_docs s (i # ids)) s0)
           = (\<lambda>k. if k \<in> set (i # ids) \<and> live s k then db_map s k else db_map s0 k)"
      unfolding cs using ih True d k by (auto simp: fun_eq_iff)
    show ?thesis using a b by simp
  next
    case False
    then have e: "(case db_map s i of None \<Rightarrow> [] | Some d \<Rightarrow> if is_deleted d then [] else [d]) = []"
      by (auto simp: live_def split: option.splits)
    have "db_list (fold index_put (live_docs s ids) s0) = db_list s0 @ filter (live s) ids \<and>
          db_map (fold index_put (live_docs s ids) s0)
            = (\<lambda>k. if k \<in> set ids \<and> live s k then db_map s k else db_map s0 k)"
      using Cons.prems by (intro Cons.IH) auto
    then show ?thesis using False e by (auto simp: live_docs_Cons fun_eq_iff)
  qed
qed

lemma live_or_tombstoned:
  "db_map s i = Some d \<Longrightarrow> live s i = (\<not> tombstoned s i)"
  by (simp add: live_def tombstoned_def)

lemma fold_index_put_purge:
  assumes b: "in_bijection s"
    and ky: "\<forall>i\<in>set (db_list s). \<forall>d. db_map s i = Some d \<longrightarrow> \<not> is_deleted d \<longrightarrow> d_id d = Some i"
  shows "fold index_put (live_docs s (db_list s)) (flush s) = purge s"
proof (rule leafdb.equality)
  from b have di: "distinct (db_list s)" and dm: "set (db_list s) = dom (db_map s)"
    by (simp_all add: in_bijection_def)
  have dj: "set (db_list (flush s)) \<inter> set (db_list s) = {}" by (simp add: flush_def)
  note fp = fold_index_put_live_docs [OF di dj ky]
  have en: "\<exists>d. db_map s i = Some d" if "i \<in> set (db_list s)" for i
    using that dm by auto
  have "live s i = (\<not> tombstoned s i)" if "i \<in> set (db_list s)" for i
    using en [OF that] by (auto simp: live_def tombstoned_def)
  then have "filter (live s) (db_list s) = filter (\<lambda>i. \<not> tombstoned s i) (db_list s)"
    by (intro filter_cong refl)
  then show "db_list (fold index_put (live_docs s (db_list s)) (flush s)) = db_list (purge s)"
    using fp by (simp add: flush_def purge_def)
  show "db_map (fold index_put (live_docs s (db_list s)) (flush s)) = db_map (purge s)"
  proof (rule ext)
    fix k
    show "db_map (fold index_put (live_docs s (db_list s)) (flush s)) k = db_map (purge s) k"
    proof (cases "db_map s k")
      case None
      then have "k \<notin> set (db_list s)" using dm by auto
      then show ?thesis using fp None
        by (simp add: flush_def purge_def tombstoned_def)
    next
      case (Some d)
      then have "k \<in> set (db_list s)" using dm by auto
      then show ?thesis using fp Some
        by (simp add: flush_def purge_def live_def tombstoned_def)
    qed
  qed
  show "db_strict (fold index_put (live_docs s (db_list s)) (flush s)) = db_strict (purge s)"
    by (simp add: flush_def purge_def)
  show "db_file (fold index_put (live_docs s (db_list s)) (flush s)) = db_file (purge s)"
    by (simp add: flush_def purge_def)
  show "leafdb.more (fold index_put (live_docs s (db_list s)) (flush s)) = leafdb.more (purge s)"
    by (simp add: flush_def purge_def)
qed


lemma ex_line_facts:
  "ex_line1 \<noteq> ex_line3" "ex_line3 \<noteq> []" "newline \<notin> set ex_line1" "newline \<notin> set ex_line3"
  by (simp_all add: ex_line1_def ex_line3_def json_simps)

lemma roundtrips_ex:
  "roundtrips (spec_env [ex_doc1, ex_doc3]) ''1'' ex_doc1"
  "roundtrips (spec_env [ex_doc1, ex_doc3]) ''3'' ex_doc3"
  using ex_line_facts ex_line1_nonempty
  by (simp_all add: roundtrips_def spec_env_def parse_known_def stringify_ex_doc1 stringify_ex_doc3)
     (simp_all add: spec_isValidDoc_def spec_isId_def ex_doc1_def ex_doc3_def legal_key_def
        starts_with_dollar_def)


end
